theory Spec2Isabelle
  imports Main "HOL-Library.Word"
begin

unbundle bit_operations_syntax

section \<open>Python values, buffers and exceptions\<close>

text \<open>
  The module \<^verbatim>\<open>pykafka/utils/struct_helpers.py\<close> works on a byte buffer and an integer
  offset, and calls Python's \<^verbatim>\<open>struct\<close> and \<^verbatim>\<open>re\<close> modules. A buffer is a list of
  bytes; Python integers are unbounded, so offsets, sizes and decoded numbers are
  \<^typ>\<open>int\<close>. An exception is the \<open>Inl\<close> branch of a sum; the module has no
  \<^verbatim>\<open>try\<close>, so every exception leaves the function that raised it and all its callers.

  The module writes a varint byte with \<^verbatim>\<open>struct.pack_into('c', buff, offset, chr(b))\<close>,
  which needs \<^verbatim>\<open>chr\<close> to give a one-byte string: this is Python 2.7, and the model of
  \<^verbatim>\<open>struct\<close> below is the one of Python 2.7 (format codes
  \<^verbatim>\<open>x c b B ? h H i I l L q Q f d s p P\<close>, the set the module's own regular expression lists).
\<close>

type_synonym byte = "8 word"

datatype error = IndexError | TypeError | ValueError | StructError

datatype pyval =
    PNone
  | PBool bool
  | PInt int
  | PBytes "byte list"
  | PFloat "byte list"
  | PTuple "pyval list"
  | PList "pyval list"

text \<open>
  \<open>PFloat img\<close> is the floating-point number whose IEEE 754 image, most significant byte
  first, is \<open>img\<close>: decoding \<^verbatim>\<open>f\<close> or \<^verbatim>\<open>d\<close> wraps the bytes read, encoding accepts an
  image of the width of the code. Conversions between widths, and from integers, are not
  modelled: the encoder answers them with \<open>StructError\<close>.
\<close>

subsection \<open>Slices, \<^verbatim>\<open>ord\<close> and \<^verbatim>\<open>chr\<close>\<close>

definition slice_index :: "nat \<Rightarrow> int \<Rightarrow> nat" where
  "slice_index n i =
     (if i < 0 then (if i + int n < 0 then 0 else nat (i + int n))
      else if int n < i then n else nat i)"

definition py_slice :: "'a list \<Rightarrow> int \<Rightarrow> int \<Rightarrow> 'a list" where
  "py_slice xs i j =
     (let a = slice_index (length xs) i; b = slice_index (length xs) j
      in take (b - a) (drop a xs))"

definition py_ord :: "byte list \<Rightarrow> error + int" where
  "py_ord s = (case s of [b] \<Rightarrow> Inr (uint b) | _ \<Rightarrow> Inl TypeError)"

definition py_chr :: "int \<Rightarrow> error + pyval" where
  "py_chr i = (if 0 \<le> i \<and> i < 256 then Inr (PBytes [word_of_int i]) else Inl ValueError)"

section \<open>The \<^verbatim>\<open>struct\<close> module\<close>

text \<open>
  Without a leading order character a format is packed in native mode: the byte order,
  the sizes and the alignments of the C compiler that built the interpreter. They are a
  parameter of the model, indexed by format code. The codes of C type \<^verbatim>\<open>char\<close>
  (\<^verbatim>\<open>x c b B s p\<close>) have size 1 and no alignment on every platform.
\<close>

record platform =
  little_endian :: bool
  c_size :: "char \<Rightarrow> nat"
  c_align :: "char \<Rightarrow> nat"

datatype byteorder = BigEndian | LittleEndian

datatype table = NativeTable | StdTable byteorder

definition whichtable :: "platform \<Rightarrow> string \<Rightarrow> table \<times> string" where
  "whichtable pf fmt =
     (case fmt of
        [] \<Rightarrow> (NativeTable, [])
      | c # cs \<Rightarrow>
          if c = CHR ''<'' then (StdTable LittleEndian, cs)
          else if c = CHR ''>'' \<or> c = CHR ''!'' then (StdTable BigEndian, cs)
          else if c = CHR ''='' then
            (StdTable (if little_endian pf then LittleEndian else BigEndian), cs)
          else if c = CHR ''@'' then (NativeTable, cs)
          else (NativeTable, fmt))"

definition order_of :: "platform \<Rightarrow> table \<Rightarrow> byteorder" where
  "order_of pf tb =
     (case tb of
        NativeTable \<Rightarrow> (if little_endian pf then LittleEndian else BigEndian)
      | StdTable ord \<Rightarrow> ord)"

text \<open>Size and alignment of one item of a format code; \<open>None\<close> is a bad character.\<close>

definition std_size :: "char \<Rightarrow> nat option" where
  "std_size c =
     (if c \<in> set ''xcbBsp?'' then Some 1
      else if c \<in> set ''hH'' then Some 2
      else if c \<in> set ''iIlLf'' then Some 4
      else if c \<in> set ''qQd'' then Some 8
      else None)"

definition getentry :: "platform \<Rightarrow> table \<Rightarrow> char \<Rightarrow> (nat \<times> nat) option" where
  "getentry pf tb c =
     (case tb of
        StdTable ord \<Rightarrow> (case std_size c of None \<Rightarrow> None | Some sz \<Rightarrow> Some (sz, 0))
      | NativeTable \<Rightarrow>
          if c \<in> set ''xcbBsp'' then Some (1, 0)
          else if c \<in> set ''hHiIlLqQ?fdP'' then Some (c_size pf c, c_align pf c)
          else None)"

definition is_space :: "char \<Rightarrow> bool" where
  "is_space c = (c \<in> {CHR 0x20, CHR 0x09, CHR 0x0A, CHR 0x0B, CHR 0x0C, CHR 0x0D})"

definition is_digit :: "char \<Rightarrow> bool" where
  "is_digit c = (c \<in> set ''0123456789'')"

definition digit_val :: "char \<Rightarrow> nat" where
  "digit_val c = of_char c - 48"

text \<open>
  The format after its order character: white space between items is skipped, a decimal
  repeat count belongs to the character that follows it, and a count with nothing after
  it is an error.
\<close>

fun parse_codes :: "nat option \<Rightarrow> string \<Rightarrow> error + (nat \<times> char) list" where
  "parse_codes None [] = Inr []"
| "parse_codes (Some n) [] = Inl StructError"
| "parse_codes num (c # cs) =
     (if is_digit c then
        parse_codes (Some ((case num of None \<Rightarrow> 0 | Some n \<Rightarrow> n) * 10 + digit_val c)) cs
      else if num = None \<and> is_space c then parse_codes None cs
      else (case parse_codes None cs of
              Inl e \<Rightarrow> Inl e
            | Inr rest \<Rightarrow> Inr ((case num of None \<Rightarrow> 1 | Some n \<Rightarrow> n, c) # rest)))"

definition align_up :: "nat \<Rightarrow> nat \<Rightarrow> nat" where
  "align_up pos a = (if a \<noteq> 0 \<and> 0 < pos then ((pos + a - 1) div a) * a else pos)"

fun calc :: "platform \<Rightarrow> table \<Rightarrow> nat \<Rightarrow> (nat \<times> char) list \<Rightarrow> error + nat" where
  "calc pf tb pos [] = Inr pos"
| "calc pf tb pos ((n, c) # cs) =
     (case getentry pf tb c of
        None \<Rightarrow> Inl StructError
      | Some (sz, al) \<Rightarrow> calc pf tb (align_up pos al + n * sz) cs)"

definition struct_calcsize :: "platform \<Rightarrow> string \<Rightarrow> error + nat" where
  "struct_calcsize pf fmt =
     (case whichtable pf fmt of
        (tb, rest) \<Rightarrow>
          (case parse_codes None rest of
             Inl e \<Rightarrow> Inl e
           | Inr codes \<Rightarrow> calc pf tb 0 codes))"

subsection \<open>Integers as bytes\<close>

definition be_bytes :: "nat \<Rightarrow> int \<Rightarrow> byte list" where
  "be_bytes n v = map (\<lambda>k. word_of_int (drop_bit (8 * k) v)) (rev [0..<n])"

definition be_uint :: "byte list \<Rightarrow> int" where
  "be_uint bs = foldl (\<lambda>acc b. acc * 256 + uint b) 0 bs"

definition be_sint :: "byte list \<Rightarrow> int" where
  "be_sint bs =
     (let u = be_uint bs
      in if bs \<noteq> [] \<and> 2 ^ (8 * length bs - 1) \<le> u then u - 2 ^ (8 * length bs) else u)"

definition in_order :: "byteorder \<Rightarrow> byte list \<Rightarrow> byte list" where
  "in_order ord bs = (case ord of BigEndian \<Rightarrow> bs | LittleEndian \<Rightarrow> rev bs)"

definition resolve_offset :: "nat \<Rightarrow> int \<Rightarrow> nat \<Rightarrow> nat option" where
  "resolve_offset len offset need =
     (let off = (if offset < 0 then offset + int len else offset)
      in if off < 0 \<or> int len - off < int need then None else Some (nat off))"

subsection \<open>Unpacking\<close>

fun chunks :: "nat \<Rightarrow> nat \<Rightarrow> 'a list \<Rightarrow> 'a list list" where
  "chunks 0 sz bs = []"
| "chunks (Suc n) sz bs = take sz bs # chunks n sz (drop sz bs)"

definition unpack_item :: "byteorder \<Rightarrow> char \<Rightarrow> byte list \<Rightarrow> pyval" where
  "unpack_item ord c chunk =
     (if c = CHR ''c'' then PBytes chunk
      else if c \<in> set ''bhilq'' then PInt (be_sint (in_order ord chunk))
      else if c = CHR ''?'' then PBool (\<exists>b \<in> set chunk. b \<noteq> 0)
      else if c \<in> set ''fd'' then PFloat (in_order ord chunk)
      else PInt (be_uint (in_order ord chunk)))"

definition unpack_code :: "byteorder \<Rightarrow> char \<Rightarrow> nat \<Rightarrow> nat \<Rightarrow> byte list \<Rightarrow> error + pyval list" where
  "unpack_code ord c n sz field =
     (if c = CHR ''x'' then Inr []
      else if c = CHR ''s'' then Inr [PBytes field]
      else if c = CHR ''p'' then
        (case field of
           [] \<Rightarrow> Inl StructError
         | l # payload \<Rightarrow> Inr [PBytes (take (min (unat l) (n - 1)) payload)])
      else Inr (map (unpack_item ord c) (chunks n sz field)))"

fun unpack_codes ::
  "platform \<Rightarrow> table \<Rightarrow> nat \<Rightarrow> (nat \<times> char) list \<Rightarrow> byte list \<Rightarrow> error + pyval list" where
  "unpack_codes pf tb pos [] bs = Inr []"
| "unpack_codes pf tb pos ((n, c) # cs) bs =
     (case getentry pf tb c of
        None \<Rightarrow> Inl StructError
      | Some (sz, al) \<Rightarrow>
          (let start = align_up pos al in
           case unpack_code (order_of pf tb) c n sz (take (n * sz) (drop start bs)) of
             Inl e \<Rightarrow> Inl e
           | Inr vs \<Rightarrow>
               (case unpack_codes pf tb (start + n * sz) cs bs of
                  Inl e \<Rightarrow> Inl e
                | Inr rest \<Rightarrow> Inr (vs @ rest))))"

text \<open>
  \<^verbatim>\<open>struct.unpack_from(fmt, buff, offset)\<close>: a negative offset counts from the end of the
  buffer, and a buffer without \<^verbatim>\<open>calcsize(fmt)\<close> bytes at the offset is an error.
\<close>

definition struct_unpack_from :: "platform \<Rightarrow> string \<Rightarrow> byte list \<Rightarrow> int \<Rightarrow> error + pyval list" where
  "struct_unpack_from pf fmt buff offset =
     (case whichtable pf fmt of
        (tb, rest) \<Rightarrow>
          (case parse_codes None rest of
             Inl e \<Rightarrow> Inl e
           | Inr codes \<Rightarrow>
               (case calc pf tb 0 codes of
                  Inl e \<Rightarrow> Inl e
                | Inr need \<Rightarrow>
                    (case resolve_offset (length buff) offset need of
                       None \<Rightarrow> Inl StructError
                     | Some k \<Rightarrow> unpack_codes pf tb 0 codes (take need (drop k buff))))))"

subsection \<open>Packing\<close>

definition as_int :: "pyval \<Rightarrow> int option" where
  "as_int v = (case v of PInt i \<Rightarrow> Some i | PBool b \<Rightarrow> Some (if b then 1 else 0) | _ \<Rightarrow> None)"

definition truth :: "pyval \<Rightarrow> bool" where
  "truth v =
     (case v of
        PNone \<Rightarrow> False
      | PBool b \<Rightarrow> b
      | PInt i \<Rightarrow> i \<noteq> 0
      | PBytes bs \<Rightarrow> bs \<noteq> []
      | PFloat img \<Rightarrow> (\<exists>b \<in> set (tl img). b \<noteq> 0) \<or> (\<exists>b \<in> set (take 1 img). b AND 0x7f \<noteq> 0)
      | PTuple vs \<Rightarrow> vs \<noteq> []
      | PList vs \<Rightarrow> vs \<noteq> [])"

text \<open>One item of a code other than \<^verbatim>\<open>x\<close>, \<^verbatim>\<open>s\<close> and \<^verbatim>\<open>p\<close>, as \<open>sz\<close> bytes.\<close>

definition pack_item :: "byteorder \<Rightarrow> char \<Rightarrow> nat \<Rightarrow> pyval \<Rightarrow> error + byte list" where
  "pack_item ord c sz v =
     (if c = CHR ''c'' then
        (case v of PBytes [b] \<Rightarrow> Inr [b] | _ \<Rightarrow> Inl StructError)
      else if c = CHR ''?'' then
        Inr (in_order ord (be_bytes sz (if truth v then 1 else 0)))
      else if c \<in> set ''fd'' then
        (case v of
           PFloat img \<Rightarrow> if length img = sz then Inr (in_order ord img) else Inl StructError
         | _ \<Rightarrow> Inl StructError)
      else
        (case as_int v of
           None \<Rightarrow> Inl StructError
         | Some i \<Rightarrow>
             if c \<in> set ''bhilq'' then
               (if sz \<noteq> 0 \<and> - (2 ^ (8 * sz - 1)) \<le> i \<and> i < 2 ^ (8 * sz - 1)
                then Inr (in_order ord (be_bytes sz i)) else Inl StructError)
             else
               (if 0 \<le> i \<and> i < 2 ^ (8 * sz)
                then Inr (in_order ord (be_bytes sz i)) else Inl StructError)))"

fun pack_items :: "byteorder \<Rightarrow> char \<Rightarrow> nat \<Rightarrow> pyval list \<Rightarrow> error + byte list" where
  "pack_items ord c sz [] = Inr []"
| "pack_items ord c sz (v # vs) =
     (case pack_item ord c sz v of
        Inl e \<Rightarrow> Inl e
      | Inr bs \<Rightarrow>
          (case pack_items ord c sz vs of
             Inl e \<Rightarrow> Inl e
           | Inr rest \<Rightarrow> Inr (bs @ rest)))"

text \<open>
  The bytes of one format code with its repeat count, and the arguments left. The region
  is zeroed before the items are written, so pad bytes and short strings read as zero.
\<close>

definition pack_code ::
  "byteorder \<Rightarrow> char \<Rightarrow> nat \<Rightarrow> nat \<Rightarrow> pyval list \<Rightarrow> error + (byte list \<times> pyval list)" where
  "pack_code ord c n sz args =
     (if c = CHR ''x'' then Inr (replicate n 0, args)
      else if c = CHR ''s'' then
        (case args of
           PBytes bs # rest \<Rightarrow> Inr (take n bs @ replicate (n - length bs) 0, rest)
         | _ \<Rightarrow> Inl StructError)
      else if c = CHR ''p'' then
        (case args of
           PBytes bs # rest \<Rightarrow>
             (if n = 0 then Inr ([], rest)
              else
                (let k = min (length bs) (n - 1)
                 in Inr (word_of_nat (min k 255) # take k bs @ replicate (n - 1 - k) 0, rest)))
         | _ \<Rightarrow> Inl StructError)
      else if length args < n then Inl StructError
      else
        (case pack_items ord c sz (take n args) of
           Inl e \<Rightarrow> Inl e
         | Inr bs \<Rightarrow> Inr (bs, drop n args)))"

fun pack_codes ::
  "platform \<Rightarrow> table \<Rightarrow> nat \<Rightarrow> (nat \<times> char) list \<Rightarrow> pyval list \<Rightarrow> error + byte list" where
  "pack_codes pf tb pos [] args = (if args = [] then Inr [] else Inl StructError)"
| "pack_codes pf tb pos ((n, c) # cs) args =
     (case getentry pf tb c of
        None \<Rightarrow> Inl StructError
      | Some (sz, al) \<Rightarrow>
          (let start = align_up pos al in
           case pack_code (order_of pf tb) c n sz args of
             Inl e \<Rightarrow> Inl e
           | Inr (bs, args') \<Rightarrow>
               (case pack_codes pf tb (start + n * sz) cs args' of
                  Inl e \<Rightarrow> Inl e
                | Inr rest \<Rightarrow> Inr (replicate (start - pos) 0 @ bs @ rest))))"

text \<open>
  \<^verbatim>\<open>struct.pack_into(fmt, buff, offset, *args)\<close> overwrites \<^verbatim>\<open>calcsize(fmt)\<close> bytes of
  the buffer at the offset and returns \<^verbatim>\<open>None\<close>; the model returns the buffer after
  the call.
\<close>

definition struct_pack_into ::
  "platform \<Rightarrow> string \<Rightarrow> byte list \<Rightarrow> int \<Rightarrow> pyval list \<Rightarrow> error + byte list" where
  "struct_pack_into pf fmt buff offset args =
     (case whichtable pf fmt of
        (tb, rest) \<Rightarrow>
          (case parse_codes None rest of
             Inl e \<Rightarrow> Inl e
           | Inr codes \<Rightarrow>
               (case calc pf tb 0 codes of
                  Inl e \<Rightarrow> Inl e
                | Inr need \<Rightarrow>
                    (case pack_codes pf tb 0 codes args of
                       Inl e \<Rightarrow> Inl e
                     | Inr bs \<Rightarrow>
                         (case resolve_offset (length buff) offset need of
                            None \<Rightarrow> Inl StructError
                          | Some k \<Rightarrow> Inr (take k buff @ bs @ drop (k + need) buff))))))"

text \<open>A 64-bit little-endian host (Linux on x86-64), to evaluate native formats on.\<close>

definition linux_x86_64 :: platform where
  "linux_x86_64 =
     \<lparr> little_endian = True,
       c_size = (\<lambda>c. if c \<in> set ''hH'' then 2 else if c \<in> set ''iIf'' then 4
                      else if c = CHR ''?'' then 1 else 8),
       c_align = (\<lambda>c. if c \<in> set ''hH'' then 2 else if c \<in> set ''iIf'' then 4
                       else if c = CHR ''?'' then 1 else 8) \<rparr>"

section \<open>The module\<close>

subsection \<open>Varints\<close>

text \<open>
  \<^verbatim>\<open>unpack_varint_from(buff, offset)\<close>: the state of its \<^verbatim>\<open>while True\<close> loop is the
  offset, \<^verbatim>\<open>size\<close>, \<^verbatim>\<open>shift\<close> and \<^verbatim>\<open>result\<close>. \<^verbatim>\<open>ord\<close> of the empty slice, past the
  end of the buffer, raises \<^verbatim>\<open>TypeError\<close>.
\<close>

function unpack_varint_loop ::
  "byte list \<Rightarrow> int \<Rightarrow> int \<Rightarrow> nat \<Rightarrow> int \<Rightarrow> error + (int \<times> int)" where
  "unpack_varint_loop buff offset sz shift result =
     (case py_ord (py_slice buff offset (offset + 1)) of
        Inl e \<Rightarrow> Inl e
      | Inr i \<Rightarrow>
          if i AND 0x80 = 0 then Inr (sz + 1, result OR push_bit shift (i AND 0x7f))
          else unpack_varint_loop buff (offset + 1) (sz + 1) (shift + 7)
                 (result OR push_bit shift (i AND 0x7f)))"
  by pat_completeness auto

lemma py_ord_slice_in_range:
  "py_ord (py_slice buff offset (offset + 1)) = Inr i \<Longrightarrow> offset < int (length buff)"
  by (auto simp: py_ord_def py_slice_def slice_index_def Let_def
      split: list.splits if_splits)

termination unpack_varint_loop
  by (relation "measure (\<lambda>(buff, offset, sz, shift, result). nat (int (length buff) - offset))")
    (auto dest: py_ord_slice_in_range)

definition unpack_varint_from :: "byte list \<Rightarrow> int \<Rightarrow> error + (int \<times> int)" where
  "unpack_varint_from buff offset = unpack_varint_loop buff offset 0 0 0"

text \<open>
  \<^verbatim>\<open>pack_varint_into(buff, offset, val)\<close>: the loop writes one byte per round with
  \<^verbatim>\<open>struct.pack_into('c', ...)\<close>, which raises once the offset leaves the buffer. The
  model returns the buffer after the call with the function's result.
\<close>

lemma struct_pack_into_c:
  "struct_pack_into pf ''c'' buff offset [PBytes [b]] =
     (case resolve_offset (length buff) offset 1 of
        None \<Rightarrow> Inl StructError
      | Some k \<Rightarrow> Inr (take k buff @ [b] @ drop (Suc k) buff))"
  by (simp add: struct_pack_into_def whichtable_def getentry_def align_up_def
      pack_code_def pack_item_def is_digit_def is_space_def split: option.splits)

lemma resolve_offset_Some:
  "resolve_offset len offset need = Some k \<Longrightarrow>
     k + need \<le> len \<and> offset + int need \<le> int len \<and>
     int k = (if offset < 0 then offset + int len else offset)"
  by (auto simp: resolve_offset_def Let_def split: if_splits)

lemma pack_c_in_range:
  assumes "py_chr x = Inr ch" and "struct_pack_into pf ''c'' buff offset [ch] = Inr buff'"
  shows "length buff' = length buff \<and> offset < int (length buff)"
proof -
  from assms(1) obtain b where ch: "ch = PBytes [b]"
    by (auto simp: py_chr_def split: if_splits)
  from assms(2) obtain k where k: "resolve_offset (length buff) offset 1 = Some k"
    and buff': "buff' = take k buff @ [b] @ drop (Suc k) buff"
    unfolding ch struct_pack_into_c by (auto split: option.splits)
  from resolve_offset_Some [OF k] have "k + 1 \<le> length buff" "offset + 1 \<le> int (length buff)"
    by simp_all
  then show ?thesis by (simp add: buff')
qed

function pack_varint_loop ::
  "platform \<Rightarrow> byte list \<Rightarrow> int \<Rightarrow> int \<Rightarrow> int \<Rightarrow> error + (byte list \<times> int)" where
  "pack_varint_loop pf buff offset val sz =
     (if drop_bit 7 val \<noteq> 0 then
        (case py_chr (val AND 0x7f OR 0x80) of
           Inl e \<Rightarrow> Inl e
         | Inr ch \<Rightarrow>
             (case struct_pack_into pf ''c'' buff offset [ch] of
                Inl e \<Rightarrow> Inl e
              | Inr buff' \<Rightarrow> pack_varint_loop pf buff' (offset + 1) (drop_bit 7 val) (sz + 1)))
      else
        (case py_chr (val AND 0x7f) of
           Inl e \<Rightarrow> Inl e
         | Inr ch \<Rightarrow>
             (case struct_pack_into pf ''c'' buff offset [ch] of
                Inl e \<Rightarrow> Inl e
              | Inr buff' \<Rightarrow> Inr (buff', sz + 1))))"
  by pat_completeness auto

termination pack_varint_loop
  by (relation "measure (\<lambda>(pf, buff, offset, val, sz). nat (int (length buff) - offset))")
    (auto dest: pack_c_in_range)

text \<open>\<^verbatim>\<open>val & 0x7f\<close> and \<^verbatim>\<open>val >>= 7\<close> need an integer: anything else is a \<^verbatim>\<open>TypeError\<close>.\<close>

definition pack_varint_into ::
  "platform \<Rightarrow> byte list \<Rightarrow> int \<Rightarrow> pyval \<Rightarrow> error + (byte list \<times> int)" where
  "pack_varint_into pf buff offset val =
     (case as_int val of
        None \<Rightarrow> Inl TypeError
      | Some v \<Rightarrow> pack_varint_loop pf buff offset v 0)"

subsection \<open>\<^verbatim>\<open>pack_into\<close>\<close>

text \<open>
  \<^verbatim>\<open>re.split('(V)', fmt)\<close> cuts the format at every \<^verbatim>\<open>V\<close> and keeps the \<^verbatim>\<open>V\<close>s; the
  list comprehension then drops the empty pieces.
\<close>

fun re_split_V :: "string \<Rightarrow> string \<Rightarrow> string list" where
  "re_split_V acc [] = [acc]"
| "re_split_V acc (c # cs) =
     (if c = CHR ''V'' then acc # ''V'' # re_split_V [] cs else re_split_V (acc @ [c]) cs)"

definition parts_of :: "string \<Rightarrow> string list" where
  "parts_of fmt = filter (\<lambda>p. p \<noteq> []) (re_split_V [] fmt)"

text \<open>
  \<^verbatim>\<open>NOARG_STRUCT_FMTS\<close> is the character class \<^verbatim>\<open>[^xcbB\?hHiIlLqQfdspP]\<close>;
  \<^verbatim>\<open>re.sub(NOARG_STRUCT_FMTS, '', fmt_part)\<close> deletes every character it matches, so it
  keeps the characters listed in the class.
\<close>

definition args_only_fmt :: "string \<Rightarrow> string" where
  "args_only_fmt fmt_part = filter (\<lambda>c. c \<in> set ''xcbB?hHiIlLqQfdspP'') fmt_part"

definition startswith_bang :: "string \<Rightarrow> bool" where
  "startswith_bang fmt = (take 1 fmt = ''!'')"

definition prefixed :: "string \<Rightarrow> nat \<Rightarrow> string \<Rightarrow> string" where
  "prefixed fmt i fmt_part =
     (if startswith_bang fmt \<and> i \<noteq> 0 then CHR ''!'' # fmt_part else fmt_part)"

text \<open>
  The loop over \<^verbatim>\<open>enumerate(parts)\<close>; \<^verbatim>\<open>args.pop(0)\<close> on an empty list raises
  \<^verbatim>\<open>IndexError\<close>.
\<close>

fun pack_parts ::
  "platform \<Rightarrow> string \<Rightarrow> nat \<Rightarrow> string list \<Rightarrow> byte list \<Rightarrow> int \<Rightarrow> pyval list \<Rightarrow> int
     \<Rightarrow> error + (byte list \<times> int)" where
  "pack_parts pf fmt i [] buff offset args sz = Inr (buff, sz)"
| "pack_parts pf fmt i (fmt_part # ps) buff offset args sz =
     (if fmt_part \<noteq> ''V'' then
        (let n = length (args_only_fmt fmt_part) in
         if length args < n then Inl IndexError
         else
           (case struct_pack_into pf (prefixed fmt i fmt_part) buff offset (take n args) of
              Inl e \<Rightarrow> Inl e
            | Inr buff' \<Rightarrow>
                (case struct_calcsize pf (prefixed fmt i fmt_part) of
                   Inl e \<Rightarrow> Inl e
                 | Inr fmtsize \<Rightarrow>
                     pack_parts pf fmt (i + 1) ps buff' (offset + int fmtsize) (drop n args)
                       (sz + int fmtsize))))
      else
        (case args of
           [] \<Rightarrow> Inl IndexError
         | a # args' \<Rightarrow>
             (case pack_varint_into pf buff offset a of
                Inl e \<Rightarrow> Inl e
              | Inr (buff', fmtsize) \<Rightarrow>
                  pack_parts pf fmt (i + 1) ps buff' (offset + fmtsize) args' (sz + fmtsize))))"

text \<open>
  \<^verbatim>\<open>pack_into(fmt, buff, offset, *args)\<close>: the buffer after the call and the value
  returned. Without a \<^verbatim>\<open>V\<close> the function returns what \<^verbatim>\<open>struct.pack_into\<close> returns,
  which is \<^verbatim>\<open>None\<close>.
\<close>

definition pack_into ::
  "platform \<Rightarrow> string \<Rightarrow> byte list \<Rightarrow> int \<Rightarrow> pyval list \<Rightarrow> error + (byte list \<times> pyval)" where
  "pack_into pf fmt buff offset args =
     (if CHR ''V'' \<in> set fmt then
        (case pack_parts pf fmt 0 (parts_of fmt) buff offset args 0 of
           Inl e \<Rightarrow> Inl e
         | Inr (buff', sz) \<Rightarrow> Inr (buff', PInt sz))
      else
        (case struct_pack_into pf fmt buff offset args of
           Inl e \<Rightarrow> Inl e
         | Inr buff' \<Rightarrow> Inr (buff', PNone)))"

subsection \<open>\<^verbatim>\<open>unpack_from\<close>\<close>

text \<open>\<^verbatim>\<open>'%ds' % len_\<close> prints the length in decimal, with a minus sign when negative.\<close>

definition digit_char :: "nat \<Rightarrow> char" where
  "digit_char d = ''0123456789'' ! d"

fun show_nat :: "nat \<Rightarrow> string" where
  "show_nat n = (if n < 10 then [digit_char n] else show_nat (n div 10) @ [digit_char (n mod 10)])"

definition show_int :: "int \<Rightarrow> string" where
  "show_int i = (if i < 0 then CHR ''-'' # show_nat (nat (- i)) else show_nat (nat i))"

text \<open>\<^verbatim>\<open>struct.unpack_from(fmt, buff, offset)[0]\<close>, used as a number.\<close>

definition unpack_int :: "platform \<Rightarrow> string \<Rightarrow> byte list \<Rightarrow> int \<Rightarrow> error + int" where
  "unpack_int pf fmt buff offset =
     (case struct_unpack_from pf fmt buff offset of
        Inl e \<Rightarrow> Inl e
      | Inr vs \<Rightarrow>
          (case vs of
             [] \<Rightarrow> Inl IndexError
           | v # _ \<Rightarrow> (case as_int v of None \<Rightarrow> Inl TypeError | Some i \<Rightarrow> Inr i)))"

text \<open>
  The block under \<^verbatim>\<open>if ch in 'SY'\<close>: it reads the length, moves the offset past it, and
  either leaves the loop round with the absent marker (\<open>None\<close>) or replaces \<^verbatim>\<open>ch\<close> by
  the format of the payload.
\<close>

definition length_prefix ::
  "platform \<Rightarrow> char \<Rightarrow> byte list \<Rightarrow> int \<Rightarrow> error + (string option \<times> int)" where
  "length_prefix pf ch buff offset =
     (let len_fmt = (if ch = CHR ''S'' then ''!h'' else ''!i'') in
      case unpack_int pf len_fmt buff offset of
        Inl e \<Rightarrow> Inl e
      | Inr len \<Rightarrow>
          (case struct_calcsize pf len_fmt of
             Inl e \<Rightarrow> Inl e
           | Inr n \<Rightarrow>
               if len = - 1 then Inr (None, offset + int n)
               else Inr (Some (show_int len @ ''s''), offset + int n)))"

text \<open>
  \<^verbatim>\<open>_unpack\<close> and \<^verbatim>\<open>_unpack_array\<close> call each other. \<open>unpack_loop\<close> is the
  \<^verbatim>\<open>for\<close> loop of \<^verbatim>\<open>_unpack\<close> over the characters left, with \<^verbatim>\<open>array_fmt\<close>,
  \<^verbatim>\<open>items\<close> and the offset as its state; \<open>unpack_array_loop\<close> is the loop over
  \<^verbatim>\<open>range(count)\<close>. The parameter \<^verbatim>\<open>count\<close> of \<^verbatim>\<open>_unpack\<close> is assigned before every
  use, so the value passed in is never read.
\<close>

function unpack ::
    "platform \<Rightarrow> string \<Rightarrow> byte list \<Rightarrow> int \<Rightarrow> int \<Rightarrow> error + (pyval list \<times> int)"
  and unpack_loop ::
    "platform \<Rightarrow> string \<Rightarrow> string option \<Rightarrow> pyval list \<Rightarrow> byte list \<Rightarrow> int
       \<Rightarrow> error + (pyval list \<times> int)"
  and unpack_array ::
    "platform \<Rightarrow> string \<Rightarrow> byte list \<Rightarrow> int \<Rightarrow> int \<Rightarrow> error + (pyval list \<times> int)"
  and unpack_array_loop ::
    "platform \<Rightarrow> string \<Rightarrow> byte list \<Rightarrow> int \<Rightarrow> nat \<Rightarrow> pyval list list
       \<Rightarrow> error + (pyval list list \<times> int)"
where
  "unpack pf fmt buff offset count = unpack_loop pf fmt None [] buff offset"
| "unpack_loop pf [] array_fmt items buff offset = Inr (items, offset)"
| "unpack_loop pf (ch # cs) (Some array_fmt) items buff offset =
     (if ch = CHR '']'' \<and> count_list array_fmt CHR ''['' = count_list array_fmt CHR '']'' then
        (case unpack_int pf ''!i'' buff offset of
           Inl e \<Rightarrow> Inl e
         | Inr count \<Rightarrow>
             (case unpack_array pf array_fmt buff (offset + 4) count of
                Inl e \<Rightarrow> Inl e
              | Inr (array_item, offset') \<Rightarrow>
                  unpack_loop pf cs None (items @ [PList array_item]) buff offset'))
      else unpack_loop pf cs (Some (array_fmt @ [ch])) items buff offset)"
| "unpack_loop pf (ch # cs) None items buff offset =
     (if ch = CHR ''['' then unpack_loop pf cs (Some []) items buff offset
      else if ch = CHR ''V'' then
        (case unpack_varint_from buff offset of
           Inl e \<Rightarrow> Inl e
         | Inr (len, unpacked) \<Rightarrow>
             unpack_loop pf cs None (items @ [PInt unpacked]) buff (offset + len))
      else
        (case (if ch \<in> set ''SY'' then length_prefix pf ch buff offset
               else Inr (Some [ch], offset)) of
           Inl e \<Rightarrow> Inl e
         | Inr (None, offset') \<Rightarrow> unpack_loop pf cs None (items @ [PNone]) buff offset'
         | Inr (Some ch', offset') \<Rightarrow>
             (case struct_unpack_from pf (CHR ''!'' # ch') buff offset' of
                Inl e \<Rightarrow> Inl e
              | Inr vs \<Rightarrow>
                  (case struct_calcsize pf ch' of
                     Inl e \<Rightarrow> Inl e
                   | Inr n \<Rightarrow> unpack_loop pf cs None (items @ vs) buff (offset' + int n)))))"
| "unpack_array pf fmt buff offset count =
     (case unpack_array_loop pf fmt buff offset (nat count) [] of
        Inl e \<Rightarrow> Inl e
      | Inr (output, offset') \<Rightarrow>
          Inr (if length fmt = 1 then concat output else map PTuple output, offset'))"
| "unpack_array_loop pf fmt buff offset 0 output = Inr (output, offset)"
| "unpack_array_loop pf fmt buff offset (Suc n) output =
     (case unpack pf fmt buff offset 1 of
        Inl e \<Rightarrow> Inl e
      | Inr (item, offset') \<Rightarrow> unpack_array_loop pf fmt buff offset' n (output @ [item]))"
  by pat_completeness auto

termination
  by (relation "inv_image (less_than <*lex*> less_than <*lex*> less_than)
    (\<lambda>x. case x of
       Inl (Inl (pf, fmt, buff, offset, count)) \<Rightarrow> (length fmt, 1::nat, 0::nat)
     | Inl (Inr (pf, cs, array_fmt, items, buff, offset)) \<Rightarrow>
         (length cs + (case array_fmt of None \<Rightarrow> 0 | Some a \<Rightarrow> Suc (length a)), 0, length cs)
     | Inr (Inl (pf, fmt, buff, offset, count)) \<Rightarrow> (length fmt, 3, 0)
     | Inr (Inr (pf, fmt, buff, offset, n, output)) \<Rightarrow> (length fmt, 2, n))")
    auto

text \<open>
  \<^verbatim>\<open>unpack_from(fmt, buff, offset=0)\<close>. Both \<^verbatim>\<open>fmt[0]\<close> raise \<^verbatim>\<open>IndexError\<close> on an
  empty string: the first before anything is decoded, the second after it.
\<close>

definition unpack_from :: "platform \<Rightarrow> string \<Rightarrow> byte list \<Rightarrow> int \<Rightarrow> error + pyval" where
  "unpack_from pf fmt0 buff offset =
     (let fmt1 = filter (\<lambda>c. c \<noteq> CHR '' '') fmt0 in
      case fmt1 of
        [] \<Rightarrow> Inl IndexError
      | c # rest \<Rightarrow>
          (let fmt = (if c \<in> set ''!><'' then rest else fmt1) in
           case unpack pf fmt buff offset 1 of
             Inl e \<Rightarrow> Inl e
           | Inr (output, offset') \<Rightarrow>
               (case fmt of
                  [] \<Rightarrow> Inl IndexError
                | c' # rest' \<Rightarrow>
                    if c' = CHR ''['' \<and> length output = 1 then Inr (output ! 0)
                    else Inr (PTuple output))))"

section \<open>Properties\<close>

subsection \<open>Empty formats\<close>

text \<open>
  Claim C10. \<^verbatim>\<open>unpack_from\<close> raises (an \<^verbatim>\<open>IndexError\<close>) and returns nothing when the format
  string is empty or holds only spaces: once the spaces are removed, \<^verbatim>\<open>fmt[0]\<close> is
  evaluated on the empty string before anything is decoded.
\<close>

theorem unpack_from_blank_format:
  assumes "\<forall>c \<in> set fmt. c = CHR '' ''"
  shows "unpack_from pf fmt buff offset = Inl IndexError"
proof -
  from assms have "filter (\<lambda>c. c \<noteq> CHR '' '') fmt = []"
    by (induction fmt) auto
  then show ?thesis by (simp add: unpack_from_def)
qed

theorem unpack_from_blank_format_witness:
  "unpack_from linux_x86_64 ''  '' [1, 2] 0 = Inl IndexError"
  using unpack_from_blank_format [of "''  ''" linux_x86_64 "[1, 2]" 0] by simp

subsection \<open>Varints\<close>

text \<open>
  The loops are unfolded by hand in the proofs below, one round at a time.
\<close>

declare unpack_varint_loop.simps [simp del] pack_varint_loop.simps [simp del]

lemma c7f: "(0x7f::int) = mask 7" by (simp add: mask_eq_exp_minus_1)

lemma bit_128: "bit (0x80::int) n \<longleftrightarrow> n = 7"
proof -
  have "bit ((2::int) ^ 7) n \<longleftrightarrow> n = 7" unfolding bit_exp_iff by auto
  then show ?thesis by simp
qed

lemma recompose7: "(v AND 0x7f) OR push_bit 7 (drop_bit 7 v) = (v::int)"
  unfolding c7f
  apply (rule bit_eqI)
  subgoal for n by (cases "n < 7") (auto simp: bit_simps)
  done

lemma low7_range: "0 \<le> (v::int) AND 0x7f \<and> v AND 0x7f < 128"
proof -
  have "v AND 0x7f = take_bit 7 v" unfolding c7f by (simp add: take_bit_eq_mask)
  moreover have "take_bit 7 v < (2::int) ^ 7" by (rule take_bit_int_less_exp)
  ultimately show ?thesis by simp
qed

lemma last_and_80: "(v AND 0x7f) AND 0x80 = (0::int)"
  unfolding c7f 
  by (rule bit_eqI) (auto simp: bit_simps bit_128)

lemma cont_eq: "(v AND 0x7f OR 0x80) = (v AND 0x7f) + (128::int)"
  by (rule disjunctive_add_eq_or[symmetric]) (rule last_and_80)

lemma cont_and_80: "(v AND 0x7f OR 0x80) AND 0x80 \<noteq> (0::int)"
proof -
  have "bit ((v AND 0x7f OR 0x80) AND (0x80::int)) 7"
    by (simp add: bit_simps bit_128)
  then show ?thesis by auto
qed

lemma cont_and_7f: "(v AND 0x7f OR 0x80) AND 0x7f = v AND (0x7f::int)"
  unfolding c7f
  by (rule bit_eqI) (auto simp: bit_simps bit_128)

lemma uint_byte: "0 \<le> i \<Longrightarrow> i < 256 \<Longrightarrow> uint (word_of_int i :: byte) = i"
  by (simp add: uint_word_of_int take_bit_eq_mod)

text \<open>
  The bytes of a non-negative number as a varint, least significant group first: the
  reference both loops are compared with.
\<close>

function varint_encoding :: "int \<Rightarrow> byte list" where
  "varint_encoding v =
     (if 0 < drop_bit 7 v then word_of_int (v AND 0x7f OR 0x80) # varint_encoding (drop_bit 7 v)
      else [word_of_int (v AND 0x7f)])"
  by pat_completeness auto
termination
  by (relation "measure nat") (auto simp: drop_bit_eq_div)

declare varint_encoding.simps [simp del]

lemma py_chr_low7: "py_chr (v AND 0x7f) = Inr (PBytes [word_of_int (v AND 0x7f)])"
  using low7_range [of v] by (simp add: py_chr_def)

lemma py_chr_cont: "py_chr (v AND 0x7f OR 0x80) = Inr (PBytes [word_of_int (v AND 0x7f OR 0x80)])"
  using low7_range [of v] by (simp add: py_chr_def cont_eq)

lemma write_c:
  assumes "0 \<le> offset" "offset < int (length buff)"
  shows "struct_pack_into pf ''c'' buff offset [PBytes [b]] =
           Inr (take (nat offset) buff @ [b] @ drop (Suc (nat offset)) buff)"
proof -
  from assms have "resolve_offset (length buff) offset 1 = Some (nat offset)"
    by (simp add: resolve_offset_def)
  then show ?thesis by (simp add: struct_pack_into_c)
qed

lemma pack_varint_loop_encoding:
  assumes "0 \<le> v" "0 \<le> offset"
    and "offset + int (length (varint_encoding v)) \<le> int (length buff)"
  shows "pack_varint_loop pf buff offset v sz =
           Inr (take (nat offset) buff @ varint_encoding v @
                  drop (nat offset + length (varint_encoding v)) buff,
                sz + int (length (varint_encoding v)))"
  using assms
proof (induction v arbitrary: buff offset sz rule: varint_encoding.induct)
  case (1 v)
  show ?case
  proof (cases "0 < drop_bit 7 v")
    case True
    let ?b = "word_of_int (v AND 0x7f OR 0x80) :: byte"
    let ?v' = "drop_bit 7 v"
    let ?buff1 = "take (nat offset) buff @ [?b] @ drop (Suc (nat offset)) buff"
    have enc: "varint_encoding v = ?b # varint_encoding ?v'"
      using True by (subst varint_encoding.simps) simp
    from "1.prems" enc have room: "offset < int (length buff)" by simp
    have len1: "length ?buff1 = length buff" using room "1.prems"(2) by simp
    have w: "struct_pack_into pf ''c'' buff offset [PBytes [?b]] = Inr ?buff1"
      using "1.prems"(2) room by (rule write_c)
    have ih: "pack_varint_loop pf ?buff1 (offset + 1) ?v' (sz + 1) =
           Inr (take (nat (offset + 1)) ?buff1 @ varint_encoding ?v' @
                  drop (nat (offset + 1) + length (varint_encoding ?v')) ?buff1,
                (sz + 1) + int (length (varint_encoding ?v')))"
      apply (rule "1.IH" [OF True])
      using True "1.prems" enc len1 by simp_all
    have n1: "nat (offset + 1) = Suc (nat offset)" using "1.prems"(2) by simp
    have t: "take (Suc (nat offset)) ?buff1 = take (nat offset) buff @ [?b]"
      using room "1.prems"(2) by simp
    have d: "drop (Suc (nat offset) + length (varint_encoding ?v')) ?buff1 =
             drop (nat offset + length (varint_encoding v)) buff"
      using room "1.prems"(2) by (simp add: enc add.commute)
    have step: "pack_varint_loop pf buff offset v sz =
                pack_varint_loop pf ?buff1 (offset + 1) ?v' (sz + 1)"
      using True by (subst pack_varint_loop.simps) (simp add: py_chr_cont w)
    have "take (nat (offset + 1)) ?buff1 @ varint_encoding ?v' @
            drop (nat (offset + 1) + length (varint_encoding ?v')) ?buff1 =
          take (nat offset) buff @ varint_encoding v @
            drop (nat offset + length (varint_encoding v)) buff"
      unfolding n1 t d by (simp add: enc)
    moreover have "(sz + 1) + int (length (varint_encoding ?v')) =
          sz + int (length (varint_encoding v))"
      by (simp add: enc)
    ultimately show ?thesis unfolding step ih by simp
  next
    case False
    with "1.prems"(1) have z: "drop_bit 7 v = 0"
      by (simp add: drop_bit_eq_div) 
    let ?b = "word_of_int (v AND 0x7f) :: byte"
    have enc: "varint_encoding v = [?b]"
      using False by (subst varint_encoding.simps) simp
    from "1.prems" enc have room: "offset < int (length buff)" by simp
    have w: "struct_pack_into pf ''c'' buff offset [PBytes [?b]] =
         Inr (take (nat offset) buff @ [?b] @ drop (Suc (nat offset)) buff)"
      using "1.prems"(2) room by (rule write_c)
    show ?thesis
      apply (subst pack_varint_loop.simps)
      by (simp add: z py_chr_low7 w enc)
  qed
qed


lemma slice_at:
  "py_slice (pre @ b # rest) (int (length pre)) (int (length pre) + 1) = [b]"
proof -
  have "nat (int (length pre) + 1) = Suc (length pre)" by simp
  then show ?thesis by (simp add: py_slice_def slice_index_def Let_def)
qed

lemma uint_cont: "uint (word_of_int (v AND 0x7f OR 0x80) :: byte) = v AND 0x7f OR 0x80"
  using low7_range [of v] by (intro uint_byte) (simp_all add: cont_eq)

lemma uint_last: "uint (word_of_int (v AND 0x7f) :: byte) = v AND 0x7f"
  using low7_range [of v] by (intro uint_byte) simp_all

lemma unpack_varint_loop_encoding:
  assumes "0 \<le> v"
  shows "unpack_varint_loop (pre @ varint_encoding v @ post) (int (length pre)) sz shift result =
           Inr (sz + int (length (varint_encoding v)), result OR push_bit shift v)"
  using assms
proof (induction v arbitrary: pre sz shift result rule: varint_encoding.induct)
  case (1 v)
  show ?case
  proof (cases "0 < drop_bit 7 v")
    case True
    let ?b = "word_of_int (v AND 0x7f OR 0x80) :: byte"
    let ?v' = "drop_bit 7 v"
    have enc: "varint_encoding v = ?b # varint_encoding ?v'"
      using True by (subst varint_encoding.simps) simp
    have l: "int (length (pre @ [?b])) = int (length pre) + 1" by simp
    have "unpack_varint_loop ((pre @ [?b]) @ varint_encoding ?v' @ post)
                (int (length (pre @ [?b]))) (sz + 1) (shift + 7)
                (result OR push_bit shift (v AND 0x7f)) =
              Inr ((sz + 1) + int (length (varint_encoding ?v')),
                   (result OR push_bit shift (v AND 0x7f)) OR push_bit (shift + 7) ?v')"
      using True "1.prems" by (intro "1.IH") simp_all
    then have ih: "unpack_varint_loop (pre @ ?b # varint_encoding ?v' @ post)
                (int (length pre) + 1) (sz + 1) (shift + 7)
                (result OR push_bit shift (v AND 0x7f)) =
              Inr ((sz + 1) + int (length (varint_encoding ?v')),
                   (result OR push_bit shift (v AND 0x7f)) OR push_bit (shift + 7) ?v')"
      unfolding l by simp
    have step: "unpack_varint_loop (pre @ varint_encoding v @ post) (int (length pre)) sz shift result =
              unpack_varint_loop (pre @ ?b # varint_encoding ?v' @ post)
                (int (length pre) + 1) (sz + 1) (shift + 7)
                (result OR push_bit shift (v AND 0x7f))"
      by (subst unpack_varint_loop.simps)
        (simp add: enc slice_at py_ord_def uint_cont cont_and_80 cont_and_7f)
    have "push_bit shift v = push_bit shift (v AND 0x7f) OR push_bit (shift + 7) ?v'"
      by (subst recompose7 [of v, symmetric]) (simp add: push_bit_or push_bit_push_bit add.commute)
    then have "(result OR push_bit shift (v AND 0x7f)) OR push_bit (shift + 7) ?v' =
               result OR push_bit shift v"
      by (simp add: or.assoc)
    then show ?thesis unfolding step ih by (simp add: enc)
  next
    case False
    with "1.prems" have z: "drop_bit 7 v = 0"
      by (simp add: drop_bit_eq_div)
    have v: "v AND 0x7f = v"
      using recompose7 [of v] by (simp add: z)
    have enc: "varint_encoding v = [word_of_int v]"
      using False by (subst varint_encoding.simps) (simp add: v)
    have u: "uint (word_of_int v :: byte) = v"
      using uint_last [of v] by (simp add: v)
    have h: "v AND 0x80 = 0"
      using last_and_80 [of v] by (simp add: v)
    show ?thesis
      by (subst unpack_varint_loop.simps) (simp add: enc slice_at py_ord_def u h v)
  qed
qed

text \<open>Python's \<^verbatim>\<open>int.bit_length()\<close>: the number of binary digits of the absolute value.\<close>

function bit_length :: "int \<Rightarrow> nat" where
  "bit_length v = (if v = 0 then 0 else Suc (bit_length (\<bar>v\<bar> div 2)))"
  by pat_completeness auto
termination
  by (relation "measure (\<lambda>v. nat \<bar>v\<bar>)") auto

declare bit_length.simps [simp del]

lemma bit_length_half: "0 < v \<Longrightarrow> bit_length v = Suc (bit_length (v div 2))"
  by (subst bit_length.simps) simp

lemma bit_length_shift:
  "2 ^ k \<le> v \<Longrightarrow> bit_length v = bit_length (v div 2 ^ k) + k"
proof (induction k arbitrary: v)
  case 0
  then show ?case by simp
next
  case (Suc k)
  have p: "(0::int) < 2 ^ Suc k" by simp
  with Suc.prems have pos: "0 < v" by linarith
  from Suc.prems have "2 ^ k \<le> v div 2" by simp
  then have "bit_length (v div 2) = bit_length (v div 2 div 2 ^ k) + k"
    by (rule Suc.IH)
  moreover have "v div 2 div 2 ^ k = v div 2 ^ Suc k"
    by (simp add: zdiv_zmult2_eq)
  ultimately show ?case using pos by (simp add: bit_length_half)
qed

lemma bit_length_div_128:
  assumes "128 \<le> v"
  shows "bit_length v = bit_length (v div 128) + 7"
  using bit_length_shift [of 7 v] assms by simp

lemma bit_length_le:
  "0 \<le> v \<Longrightarrow> v < 2 ^ k \<Longrightarrow> bit_length v \<le> k"
proof (induction k arbitrary: v)
  case 0
  then have "v = 0" by simp
  then show ?case by (subst bit_length.simps) simp
next
  case (Suc k)
  show ?case
  proof (cases "v = 0")
    case True
    then show ?thesis by (subst bit_length.simps) simp
  next
    case False
    with Suc.prems have pos: "0 < v" by simp
    from Suc.prems have "v div 2 < 2 ^ k" by simp
    moreover from pos have "0 \<le> v div 2" by simp
    ultimately have "bit_length (v div 2) \<le> k" by (intro Suc.IH)
    then show ?thesis using pos by (simp add: bit_length_half)
  qed
qed

lemma bit_length_pos: "0 < v \<Longrightarrow> 0 < bit_length v"
  by (simp add: bit_length_half)

lemma length_varint_encoding:
  assumes "0 \<le> v"
  shows "length (varint_encoding v) = max 1 ((bit_length v + 6) div 7)"
  using assms
proof (induction v rule: varint_encoding.induct)
  case (1 v)
  show ?case
  proof (cases "0 < drop_bit 7 v")
    case True
    then have big: "128 \<le> v" using "1.prems" by (simp add: drop_bit_eq_div)
    have pos: "0 < bit_length (v div 128)"
      using True by (intro bit_length_pos) (simp add: drop_bit_eq_div)
    have "length (varint_encoding v) = Suc (length (varint_encoding (drop_bit 7 v)))"
      using True by (subst varint_encoding.simps) simp
    also have "length (varint_encoding (drop_bit 7 v)) =
               max 1 ((bit_length (drop_bit 7 v) + 6) div 7)"
      using True "1.prems" by (intro "1.IH") simp_all
    finally show ?thesis
      using pos by (simp add: bit_length_div_128 [OF big] drop_bit_eq_div)
  next
    case False
    then have small: "v < 128" by (simp add: drop_bit_eq_div)
    have "bit_length v \<le> 7"
      using "1.prems" small by (intro bit_length_le) simp_all
    moreover have "length (varint_encoding v) = 1"
      using False by (subst varint_encoding.simps) simp
    ultimately show ?thesis by simp
  qed
qed

lemma pack_varint_into_encoding:
  assumes "0 \<le> v" "0 \<le> offset"
    and "offset + int (max 1 ((bit_length v + 6) div 7)) \<le> int (length buff)"
  shows "pack_varint_into pf buff offset (PInt v) =
           Inr (take (nat offset) buff @ varint_encoding v @
                  drop (nat offset + length (varint_encoding v)) buff,
                int (max 1 ((bit_length v + 6) div 7)))"
proof -
  have len: "length (varint_encoding v) = max 1 ((bit_length v + 6) div 7)"
    using assms(1) by (rule length_varint_encoding)
  have "pack_varint_loop pf buff offset v 0 =
          Inr (take (nat offset) buff @ varint_encoding v @
                 drop (nat offset + length (varint_encoding v)) buff,
               0 + int (length (varint_encoding v)))"
    using assms(1,2) assms(3) [folded len] by (rule pack_varint_loop_encoding)
  then show ?thesis by (simp add: pack_varint_into_def as_int_def len)
qed

lemma pack_varint_loop_negative:
  "val < 0 \<Longrightarrow> \<exists>e. pack_varint_loop pf buff offset val sz = Inl e"
proof (induction pf buff offset val sz rule: pack_varint_loop.induct)
  case (1 pf buff offset val sz)
  from "1.prems" have neg: "drop_bit 7 val < 0" by simp
  then have nz: "drop_bit 7 val \<noteq> 0" by linarith
  show ?case
  proof (cases "py_chr (val AND 0x7f OR 0x80)")
    case (Inl e)
    then show ?thesis using nz by (subst pack_varint_loop.simps) simp
  next
    case (Inr ch)
    note ch = this
    show ?thesis
    proof (cases "struct_pack_into pf ''c'' buff offset [ch]")
      case (Inl e)
      then show ?thesis using nz ch by (subst pack_varint_loop.simps) simp
    next
      case (Inr buff')
      from "1.IH" [OF nz ch Inr neg]
      show ?thesis using nz ch Inr by (subst pack_varint_loop.simps) simp
    qed
  qed
qed

text \<open>
  Claim C8. For a non-negative value and a buffer with room for the bytes at a
  non-negative offset, \<^verbatim>\<open>pack_varint_into\<close> returns, and the number it returns is
  \<open>max(1, ceil(bit_length(value) / 7))\<close>. The value of the loop falls with every shift
  while it is positive, which is why the loop ends. A negative value stays negative under
  the shift, so the exit test never holds: the loop writes until
  \<^verbatim>\<open>struct.pack_into\<close> raises at the end of the buffer, and the function returns nothing.
\<close>

theorem pack_varint_into_size:
  "(0 \<le> v \<and> 0 \<le> offset \<and>
      offset + int (max 1 ((bit_length v + 6) div 7)) \<le> int (length buff) \<longrightarrow>
      (\<exists>buff'. pack_varint_into pf buff offset (PInt v) =
                  Inr (buff', int (max 1 ((bit_length v + 6) div 7))))) \<and>
   (0 < v \<longrightarrow> 0 \<le> drop_bit 7 v \<and> drop_bit 7 v < v) \<and>
   (v < 0 \<longrightarrow> drop_bit 7 v < 0 \<and>
      (\<exists>e. pack_varint_into pf buff offset (PInt v) = Inl e))"
proof (intro conjI impI)
  assume "0 \<le> v \<and> 0 \<le> offset \<and>
      offset + int (max 1 ((bit_length v + 6) div 7)) \<le> int (length buff)"
  then show "\<exists>buff'. pack_varint_into pf buff offset (PInt v) =
                  Inr (buff', int (max 1 ((bit_length v + 6) div 7)))"
    using pack_varint_into_encoding [of v offset buff pf] by blast
next
  assume "0 < v" then show "0 \<le> drop_bit 7 v" by simp
next
  assume "0 < v" then show "drop_bit 7 v < v" by (simp add: drop_bit_eq_div)
next
  assume "v < 0" then show "drop_bit 7 v < 0" by simp
next
  assume "v < 0"
  then show "\<exists>e. pack_varint_into pf buff offset (PInt v) = Inl e"
    using pack_varint_loop_negative [of v pf buff offset 0]
    by (simp add: pack_varint_into_def as_int_def)
qed

lemma bit_length_300: "bit_length 300 = 9"
  by (simp add: bit_length.simps)

theorem pack_varint_into_size_witness:
  "(\<exists>buff'. pack_varint_into linux_x86_64 [7, 7, 7] 1 (PInt 300) = Inr (buff', 2)) \<and>
   drop_bit 7 (300 :: int) < 300 \<and>
   (\<exists>e. pack_varint_into linux_x86_64 [7, 7, 7] 1 (PInt (- 1)) = Inl e)"
  using pack_varint_into_size [of 300 1 "[7, 7, 7]" linux_x86_64]
    pack_varint_into_size [of "- 1" 1 "[7, 7, 7]" linux_x86_64]
  by (simp add: bit_length_300)

text \<open>
  Claim C4. For each \<open>v\<close> of 0, 1, 127, 128, 300, \<open>2^32 - 1\<close> and \<open>2^63 - 1\<close>, and a
  buffer of at least nine bytes, \<^verbatim>\<open>pack_varint_into\<close> at offset 0 returns some \<open>n\<close>, and
  \<^verbatim>\<open>unpack_varint_from\<close> at offset 0 of the buffer it wrote returns \<open>(n, v)\<close>. Encoding 0
  writes one zero byte and nothing else.
\<close>

theorem varint_roundtrip:
  assumes "v \<in> {0, 1, 127, 128, 300, 2 ^ 32 - 1, 2 ^ 63 - 1}" and "9 \<le> length buff"
  shows "\<exists>buff' n. pack_varint_into pf buff 0 (PInt v) = Inr (buff', n) \<and>
           unpack_varint_from buff' 0 = Inr (n, v) \<and>
           (v = 0 \<longrightarrow> n = 1 \<and> buff' = 0 # tl buff)"
proof -
  from assms(1) have nonneg: "0 \<le> v" and bound: "v < 2 ^ 63" by auto
  let ?enc = "varint_encoding v"
  let ?n = "max 1 ((bit_length v + 6) div 7)"
  let ?buff' = "take (nat 0) buff @ ?enc @ drop (nat 0 + length ?enc) buff"
  have "bit_length v \<le> 63" using nonneg bound by (rule bit_length_le)
  then have "?n \<le> 9" by simp
  with assms(2) have room: "0 + int ?n \<le> int (length buff)" by simp
  have p: "pack_varint_into pf buff 0 (PInt v) = Inr (?buff', int ?n)"
    using nonneg _ room by (rule pack_varint_into_encoding) simp
  have len: "length ?enc = ?n" using nonneg by (rule length_varint_encoding)
  have "unpack_varint_loop ([] @ ?enc @ drop (length ?enc) buff) (int (length ([]::byte list))) 0 0 0 =
          Inr (0 + int (length ?enc), 0 OR push_bit 0 v)"
    using nonneg by (rule unpack_varint_loop_encoding)
  then have u: "unpack_varint_from ?buff' 0 = Inr (int ?n, v)"
    by (simp add: unpack_varint_from_def len)
  have z: "v = 0 \<longrightarrow> int ?n = 1 \<and> ?buff' = 0 # tl buff"
  proof
    assume v0: "v = 0"
    have e0: "varint_encoding 0 = [0]" by (subst varint_encoding.simps) simp
    have b0: "bit_length 0 = 0" by (subst bit_length.simps) simp
    from assms(2) obtain x xs where "buff = x # xs" by (cases buff) auto
    then show "int ?n = 1 \<and> ?buff' = 0 # tl buff"
      by (simp add: v0 e0 b0)
  qed
  from p u z show ?thesis by blast
qed

theorem varint_roundtrip_witness:
  "(300 :: int) \<in> {0, 1, 127, 128, 300, 2 ^ 32 - 1, 2 ^ 63 - 1} \<and>
   9 \<le> length (replicate 9 (7 :: byte)) \<and>
   (\<exists>buff' n. pack_varint_into linux_x86_64 (replicate 9 7) 0 (PInt 300) = Inr (buff', n) \<and>
      unpack_varint_from buff' 0 = Inr (n, 300))"
  using varint_roundtrip [of 300 "replicate 9 7" linux_x86_64]
  by simp

subsection \<open>The decode cursor\<close>

lemma unpack_varint_loop_size:
  "unpack_varint_loop buff offset sz shift result = Inr (n, v) \<Longrightarrow> sz + 1 \<le> n"
proof (induction buff offset sz shift result rule: unpack_varint_loop.induct)
  case (1 buff offset sz shift result)
  from "1.prems" show ?case
    by (subst (asm) unpack_varint_loop.simps)
      (auto split: sum.splits if_splits dest: "1.IH")
qed

lemma unpack_varint_from_size:
  "unpack_varint_from buff offset = Inr (n, v) \<Longrightarrow> 1 \<le> n"
  using unpack_varint_loop_size [of buff offset 0 0 0 n v]
  by (simp add: unpack_varint_from_def)

lemma length_prefix_forward:
  "length_prefix pf ch buff offset = Inr (r, offset') \<Longrightarrow> offset \<le> offset'"
  by (auto simp: length_prefix_def Let_def split: sum.splits if_splits)

lemma cursor_monotone:
  shows "unpack pf fmt buff offset count = Inr (r, off') \<Longrightarrow> offset \<le> off'"
    and "unpack_loop pf cs af items buff offset = Inr (r, off') \<Longrightarrow> offset \<le> off'"
    and "unpack_array pf fmt buff offset count = Inr (r, off') \<Longrightarrow> offset \<le> off'"
    and "unpack_array_loop pf fmt buff offset n out = Inr (rs, off') \<Longrightarrow> offset \<le> off'"
proof (induction pf fmt buff offset count and pf cs af items buff offset
    and pf fmt buff offset count and pf fmt buff offset n out
    arbitrary: r off' and r off' and r off' and rs off'
    rule: unpack_unpack_loop_unpack_array_unpack_array_loop.induct)
  case (1 pf fmt buff offset count)
  then show ?case by simp
next
  case (2 pf array_fmt items buff offset)
  then show ?case by simp
next
  case (3 pf ch cs array_fmt items buff offset)
  show ?case
  proof (cases "ch = CHR '']'' \<and> count_list array_fmt CHR ''['' = count_list array_fmt CHR '']''")
    case True
    with "3.prems" obtain count arr o1 where
      c: "unpack_int pf ''!i'' buff offset = Inr count"
      and a: "unpack_array pf array_fmt buff (offset + 4) count = Inr (arr, o1)"
      and l: "unpack_loop pf cs None (items @ [PList arr]) buff o1 = Inr (r, off')"
      by (auto split: sum.splits prod.splits)
    from "3.IH"(1) [OF True c a] have "offset + 4 \<le> o1" .
    moreover from "3.IH"(2) [OF True c a refl l] have "o1 \<le> off'" .
    ultimately show ?thesis by simp
  next
    case False
    with "3.prems" have "unpack_loop pf cs (Some (array_fmt @ [ch])) items buff offset = Inr (r, off')"
      by (auto split: if_splits)
    from "3.IH"(3) [OF False this] show ?thesis .
  qed
next
  case (4 pf ch cs items buff offset)
  show ?case
  proof (cases "ch = CHR ''[''")
    case True
    with "4.prems" "4.IH"(1) show ?thesis by simp
  next
    case nb: False
    show ?thesis
    proof (cases "ch = CHR ''V''")
      case True
      with nb "4.prems" obtain len v where
        u: "unpack_varint_from buff offset = Inr (len, v)"
        and l: "unpack_loop pf cs None (items @ [PInt v]) buff (offset + len) = Inr (r, off')"
        by (auto split: sum.splits prod.splits)
      from "4.IH"(2) [OF nb True u refl l] unpack_varint_from_size [OF u]
      show ?thesis by simp
    next
      case nv: False
      let ?pre = "if ch \<in> set ''SY'' then length_prefix pf ch buff offset
                  else Inr (Some [ch], offset)"
      from nb nv "4.prems" obtain w o1 where
        pre: "?pre = Inr (w, o1)"
        by (auto split: sum.splits prod.splits)
      then have f1: "offset \<le> o1"
        by (auto split: if_splits dest: length_prefix_forward)
      show ?thesis
      proof (cases w)
        case None
        with nb nv "4.prems" pre have
          l: "unpack_loop pf cs None (items @ [PNone]) buff o1 = Inr (r, off')"
          by (auto split: sum.splits prod.splits)
        from "4.IH"(3) [OF nb nv pre refl None l] f1 show ?thesis by simp
      next
        case (Some ch')
        with nb nv "4.prems" pre obtain vs n where
          s: "struct_unpack_from pf (CHR ''!'' # ch') buff o1 = Inr vs"
          and c: "struct_calcsize pf ch' = Inr n"
          and l: "unpack_loop pf cs None (items @ vs) buff (o1 + int n) = Inr (r, off')"
          by (auto split: sum.splits prod.splits)
        from "4.IH"(4) [OF nb nv pre refl Some s c l] f1 show ?thesis by simp
      qed
    qed
  qed
next
  case (5 pf fmt buff offset count)
  then show ?case by (auto split: sum.splits prod.splits)
next
  case (6 pf fmt buff offset out)
  then show ?case by simp
next
  case (7 pf fmt buff offset n out)
  then show ?case by (fastforce split: sum.splits prod.splits)
qed


text \<open>
  Claim C9. The decode cursor never moves backwards: whenever \<^verbatim>\<open>_unpack\<close> or
  \<^verbatim>\<open>_unpack_array\<close> returns, the offset returned is at least the offset given, for
  every format, buffer, offset and count; and the size \<^verbatim>\<open>unpack_varint_from\<close> returns,
  by which its caller moves the cursor, is at least one.
\<close>

theorem decode_cursor_monotone:
  "(unpack pf fmt buff offset count = Inr (items, offset') \<longrightarrow> offset \<le> offset') \<and>
   (unpack_array pf fmt buff offset count = Inr (items, offset') \<longrightarrow> offset \<le> offset') \<and>
   (unpack_varint_from buff offset = Inr (n, v) \<longrightarrow> 1 \<le> n)"
  using cursor_monotone(1) [of pf fmt buff offset count items offset']
    cursor_monotone(3) [of pf fmt buff offset count items offset']
    unpack_varint_from_size [of buff offset n v]
  by blast


theorem decode_cursor_monotone_witness:
  "unpack linux_x86_64 ''[i]V'' [0, 0, 0, 2, 0, 0, 0, 1, 0, 0, 0, 2, 0xAC, 2] 0 1 =
     Inr ([PList [PInt 1, PInt 2], PInt 300], 14) \<and> (0 :: int) \<le> 14 \<and>
   unpack_array linux_x86_64 ''i'' [0, 0, 0, 2, 0, 0, 0, 1, 0, 0, 0, 2, 0xAC, 2] 4 2 =
     Inr ([PInt 1, PInt 2], 12) \<and> (4 :: int) \<le> 12 \<and>
   unpack_varint_from [0, 0, 0, 2, 0, 0, 0, 1, 0, 0, 0, 2, 0xAC, 2] 12 = Inr (2, 300) \<and>
   (1 :: int) \<le> 2"
proof -
  let ?buff = "[0, 0, 0, 2, 0, 0, 0, 1, 0, 0, 0, 2, 0xAC, 2] :: byte list"
  have a: "unpack linux_x86_64 ''[i]V'' ?buff 0 1 = Inr ([PList [PInt 1, PInt 2], PInt 300], 14)"
    by code_simp
  have b: "unpack_array linux_x86_64 ''i'' ?buff 4 2 = Inr ([PInt 1, PInt 2], 12)"
    by code_simp
  have c: "unpack_varint_from ?buff 12 = Inr (2, 300)"
    by code_simp
  from a b c
    decode_cursor_monotone [of linux_x86_64 "''[i]V''" ?buff 0 1
      "[PList [PInt 1, PInt 2], PInt 300]" 14 2 300]
    decode_cursor_monotone [of linux_x86_64 "''i''" ?buff 4 2 "[PInt 1, PInt 2]" 12 2 300]
    decode_cursor_monotone [of linux_x86_64 "''i''" ?buff 12 2 "[PInt 1, PInt 2]" 12 2 300]
  show ?thesis by simp
qed

subsection \<open>Length-prefixed strings and byte arrays\<close>

text \<open>
  The payload format \<^verbatim>\<open>'%ds' % len_\<close> goes through the format parser of \<^verbatim>\<open>struct\<close>: a
  printed length reads back as the repeat count of \<^verbatim>\<open>s\<close>, and a minus sign is a bad
  character.
\<close>

declare show_nat.simps [simp del]

lemma is_digit_digit_char: "d < 10 \<Longrightarrow> is_digit (digit_char d) \<and> digit_val (digit_char d) = d"
proof -
  assume "d < 10"
  then have "d = 0 \<or> d = 1 \<or> d = 2 \<or> d = 3 \<or> d = 4 \<or> d = 5 \<or> d = 6 \<or> d = 7 \<or>
    d = 8 \<or> d = 9" by arith
  then show ?thesis
    by (elim disjE) (simp_all add: is_digit_def digit_char_def digit_val_def)
qed

lemma parse_show_nat:
  "parse_codes num (show_nat n @ rest) =
     parse_codes (Some ((case num of None \<Rightarrow> 0 | Some m \<Rightarrow> m) * 10 ^ length (show_nat n) + n)) rest"
proof (induction n arbitrary: num rest rule: show_nat.induct)
  case (1 n)
  show ?case
  proof (cases "n < 10")
    case True
    then have s: "show_nat n = [digit_char n]" by (subst show_nat.simps) simp
    from True show ?thesis
      unfolding s by (simp add: is_digit_digit_char)
  next
    case False
    then have s: "show_nat n = show_nat (n div 10) @ [digit_char (n mod 10)]"
      by (subst show_nat.simps) simp
    have d: "is_digit (digit_char (n mod 10))" "digit_val (digit_char (n mod 10)) = n mod 10"
      using is_digit_digit_char [of "n mod 10"] by simp_all
    have l: "length (show_nat n) = Suc (length (show_nat (n div 10)))"
      by (subst s) simp
    have "parse_codes num (show_nat n @ rest) =
          parse_codes num (show_nat (n div 10) @ digit_char (n mod 10) # rest)"
      by (subst s) simp
    also have "\<dots> = parse_codes (Some ((case num of None \<Rightarrow> 0 | Some m \<Rightarrow> m) *
                 10 ^ length (show_nat (n div 10)) + n div 10)) (digit_char (n mod 10) # rest)"
      using False by (rule "1.IH")
    also have "\<dots> = parse_codes (Some (((case num of None \<Rightarrow> 0 | Some m \<Rightarrow> m) *
                 10 ^ length (show_nat (n div 10)) + n div 10) * 10 + n mod 10)) rest"
      by (simp add: d)
    also have "((case num of None \<Rightarrow> 0 | Some m \<Rightarrow> m) *
                 10 ^ length (show_nat (n div 10)) + n div 10) * 10 + n mod 10 =
               (case num of None \<Rightarrow> 0 | Some m \<Rightarrow> m) * 10 ^ length (show_nat n) + n"
      unfolding l by (simp add: algebra_simps)
    finally show ?thesis .
  qed
qed

lemma parse_length_s: "parse_codes None (show_nat n @ ''s'') = Inr [(n, CHR ''s'')]"
  by (simp add: parse_show_nat is_digit_def is_space_def)

lemma show_nat_head: "\<exists>c cs. show_nat n = c # cs \<and> is_digit c"
proof (induction n rule: show_nat.induct)
  case (1 n)
  show ?case
  proof (cases "n < 10")
    case True
    then show ?thesis using is_digit_digit_char [of n] by (subst show_nat.simps) simp
  next
    case False
    with "1.IH" obtain c cs where "show_nat (n div 10) = c # cs" "is_digit c" by auto
    with False show ?thesis by (subst show_nat.simps) simp
  qed
qed

lemma whichtable_digit: "is_digit c \<Longrightarrow> whichtable pf (c # cs) = (NativeTable, c # cs)"
  by (auto simp: whichtable_def is_digit_def)

lemma whichtable_show_nat: "whichtable pf (show_nat n @ rest) = (NativeTable, show_nat n @ rest)"
proof -
  obtain c cs where s: "show_nat n = c # cs" and d: "is_digit c"
    using show_nat_head by blast
  show ?thesis unfolding s using whichtable_digit [OF d] by simp
qed

lemma resolve_offset_nonneg:
  "0 \<le> offset \<Longrightarrow>
     resolve_offset len offset need =
       (if int len < offset + int need then None else Some (nat offset))"
  by (auto simp: resolve_offset_def Let_def)

lemma calcsize_length_s: "struct_calcsize pf (show_nat n @ ''s'') = Inr n"
  by (simp add: struct_calcsize_def whichtable_show_nat parse_length_s getentry_def align_up_def
     )

lemma unpack_payload:
  assumes "0 \<le> offset"
  shows "struct_unpack_from pf (CHR ''!'' # show_nat n @ ''s'') buff offset =
           (if int (length buff) < offset + int n then Inl StructError
            else Inr [PBytes (take n (drop (nat offset) buff))])"
  using assms
  by (simp add: struct_unpack_from_def whichtable_def parse_length_s getentry_def std_size_def
      align_up_def unpack_code_def resolve_offset_nonneg)

lemma unpack_negative_length:
  assumes "len < 0"
  shows "struct_unpack_from pf (CHR ''!'' # show_int len @ ''s'') buff offset = Inl StructError"
proof -
  have "parse_codes None (CHR ''-'' # show_nat (nat (- len)) @ ''s'') =
          Inr [(1, CHR ''-''), (nat (- len), CHR ''s'')]"
    by (simp add: parse_length_s is_digit_def is_space_def)
  then show ?thesis
    using assms
    by (simp add: struct_unpack_from_def whichtable_def show_int_def getentry_def std_size_def
       )
qed

lemma unpack_int_h:
  assumes "0 \<le> offset"
  shows "unpack_int pf ''!h'' buff offset =
           (if int (length buff) < offset + 2 then Inl StructError
            else Inr (be_sint (take 2 (drop (nat offset) buff))))"
  using assms
  by (simp add: unpack_int_def struct_unpack_from_def whichtable_def getentry_def std_size_def
      align_up_def unpack_code_def unpack_item_def in_order_def order_of_def as_int_def
      is_digit_def is_space_def resolve_offset_nonneg)

lemma unpack_int_i:
  assumes "0 \<le> offset"
  shows "unpack_int pf ''!i'' buff offset =
           (if int (length buff) < offset + 4 then Inl StructError
            else Inr (be_sint (take 4 (drop (nat offset) buff))))"
  using assms
  by (simp add: unpack_int_def struct_unpack_from_def whichtable_def getentry_def std_size_def
      align_up_def unpack_code_def unpack_item_def in_order_def order_of_def as_int_def
      is_digit_def is_space_def resolve_offset_nonneg)

lemma calcsize_h: "struct_calcsize pf ''!h'' = Inr 2"
  by (simp add: struct_calcsize_def whichtable_def getentry_def std_size_def align_up_def
      is_digit_def is_space_def)

lemma calcsize_i: "struct_calcsize pf ''!i'' = Inr 4"
  by (simp add: struct_calcsize_def whichtable_def getentry_def std_size_def align_up_def
      is_digit_def is_space_def)

lemma length_prefix_eq:
  assumes "ch = CHR ''S'' \<and> psz = 2 \<or> ch = CHR ''Y'' \<and> psz = 4" and "0 \<le> offset"
  shows "length_prefix pf ch buff offset =
           (if int (length buff) < offset + int psz then Inl StructError
            else
              (let len = be_sint (take psz (drop (nat offset) buff)) in
               if len = - 1 then Inr (None, offset + int psz)
               else Inr (Some (show_int len @ ''s''), offset + int psz)))"
  using assms
  by (auto simp: length_prefix_def Let_def unpack_int_h unpack_int_i calcsize_h calcsize_i)

lemma unpack_length_prefixed_step:
  assumes "ch = CHR ''S'' \<and> psz = 2 \<or> ch = CHR ''Y'' \<and> psz = 4" and "0 \<le> offset"
  shows "unpack_loop pf (ch # cs) None items buff offset =
           (if int (length buff) < offset + int psz then Inl StructError
            else
              (let len = be_sint (take psz (drop (nat offset) buff)) in
               if len = - 1 then
                 unpack_loop pf cs None (items @ [PNone]) buff (offset + int psz)
               else if 0 \<le> len \<and> offset + int psz + len \<le> int (length buff) then
                 unpack_loop pf cs None
                   (items @ [PBytes (take (nat len) (drop (nat offset + psz) buff))]) buff
                   (offset + int psz + len)
               else Inl StructError))"
proof -
  let ?len = "be_sint (take psz (drop (nat offset) buff))"
  from assms(1) have ch: "ch \<noteq> CHR ''[''" "ch \<noteq> CHR ''V''" "ch \<in> set ''SY''" by auto
  note lp = length_prefix_eq [OF assms, of pf buff]
  show ?thesis
  proof (cases "int (length buff) < offset + int psz")
    case True
    then show ?thesis using ch lp by simp
  next
    case room: False
    show ?thesis
    proof (cases "?len = - 1")
      case True
      then show ?thesis using ch lp room by (simp add: Let_def)
    next
      case nm: False
      show ?thesis
      proof (cases "0 \<le> ?len")
        case True
        then have si: "show_int ?len = show_nat (nat ?len)" by (simp add: show_int_def)
        have o: "0 \<le> offset + int psz" using assms(2) by simp
        have n: "nat (offset + int psz) = nat offset + psz" using assms(2) by (simp add: nat_add_distrib)
        have l: "int (nat ?len) = ?len" using True by simp
        show ?thesis
          using ch lp room nm True
          by (simp add: Let_def si unpack_payload [OF o] calcsize_length_s n l)
      next
        case False
        then have neg: "?len < 0" by simp
        show ?thesis
          using ch lp room nm False
          by (simp add: Let_def unpack_negative_length [OF neg])
      qed
    qed
  qed
qed

text \<open>
  Claim C6. At a token \<^verbatim>\<open>S\<close> or \<^verbatim>\<open>Y\<close> and a non-negative offset, the walker reads a
  big-endian signed length of 2 or 4 bytes. When the length is -1 it appends the absent
  marker and goes on right after the prefix, reading no payload. Otherwise it appends the
  payload of exactly that many bytes and goes on after the prefix and the payload, when the
  buffer has them (a buffer too short, or a length below -1, raises). Format \<^verbatim>\<open>S\<close> over
  the bytes \<^verbatim>\<open>FF FF\<close> gives the absent marker and the offset 2.
\<close>

theorem unpack_length_prefixed:
  assumes "ch = CHR ''S'' \<and> psz = 2 \<or> ch = CHR ''Y'' \<and> psz = 4" and "0 \<le> offset"
  shows "unpack_loop pf (ch # cs) None items buff offset =
           (if int (length buff) < offset + int psz then Inl StructError
            else
              (let len = be_sint (take psz (drop (nat offset) buff)) in
               if len = - 1 then
                 unpack_loop pf cs None (items @ [PNone]) buff (offset + int psz)
               else if 0 \<le> len \<and> offset + int psz + len \<le> int (length buff) then
                 unpack_loop pf cs None
                   (items @ [PBytes (take (nat len) (drop (nat offset + psz) buff))]) buff
                   (offset + int psz + len)
               else Inl StructError)) \<and>
         unpack pf ''S'' [0xFF, 0xFF] 0 count = Inr ([PNone], 2)"
proof
  show "unpack_loop pf (ch # cs) None items buff offset =
           (if int (length buff) < offset + int psz then Inl StructError
            else
              (let len = be_sint (take psz (drop (nat offset) buff)) in
               if len = - 1 then
                 unpack_loop pf cs None (items @ [PNone]) buff (offset + int psz)
               else if 0 \<le> len \<and> offset + int psz + len \<le> int (length buff) then
                 unpack_loop pf cs None
                   (items @ [PBytes (take (nat len) (drop (nat offset + psz) buff))]) buff
                   (offset + int psz + len)
               else Inl StructError))"
    using assms by (rule unpack_length_prefixed_step)
  have "be_sint [0xFF, 0xFF] = - 1"
    by (simp add: be_sint_def be_uint_def)
  then show "unpack pf ''S'' [0xFF, 0xFF] 0 count = Inr ([PNone], 2)"
    using unpack_length_prefixed_step [of "CHR ''S''" 2 0 pf "[]" "[]" "[0xFF, 0xFF]"]
    by simp
qed

theorem unpack_length_prefixed_witness:
  "unpack linux_x86_64 ''Y'' [0, 0, 0, 3, 97, 98, 99] 0 1 = Inr ([PBytes [97, 98, 99]], 7) \<and>
   unpack linux_x86_64 ''S'' [0xFF, 0xFF] 0 1 = Inr ([PNone], 2)"
proof -
  have "be_sint [0, 0, 0, 3] = 3"
    by (simp add: be_sint_def be_uint_def)
  then show ?thesis
    using unpack_length_prefixed [of "CHR ''Y''" 4 0 linux_x86_64 "[]" "[]"
        "[0, 0, 0, 3, 97, 98, 99]" 1]
    by simp
qed

subsection \<open>Short buffers\<close>

text \<open>
  Every read of the decoder is checked: \<^verbatim>\<open>struct.unpack_from\<close> raises when the buffer
  has fewer bytes at the offset than the format needs, and \<^verbatim>\<open>ord\<close> raises on the empty
  slice past the end. So a read that succeeds on a buffer succeeds, with the same bytes,
  on every longer buffer that starts with it.
\<close>

lemma resolve_offset_append:
  assumes "0 \<le> offset" and "resolve_offset (length buff) offset need = Some k"
  shows "resolve_offset (length (buff @ ext)) offset need = Some k \<and>
         take need (drop k (buff @ ext)) = take need (drop k buff)"
proof -
  from assms have "k = nat offset" "nat offset + need \<le> length buff"
    by (auto simp: resolve_offset_def Let_def split: if_splits)
  with assms(1) show ?thesis
    by (auto simp: resolve_offset_def Let_def)
qed

lemma struct_unpack_from_append:
  assumes "0 \<le> offset" and "struct_unpack_from pf fmt buff offset = Inr vs"
  shows "struct_unpack_from pf fmt (buff @ ext) offset = Inr vs"
proof -
  obtain tb rest where w: "whichtable pf fmt = (tb, rest)" by (cases "whichtable pf fmt")
  from assms(2) w obtain codes where p: "parse_codes None rest = Inr codes"
    by (auto simp: struct_unpack_from_def split: sum.splits)
  from assms(2) w p obtain need where c: "calc pf tb 0 codes = Inr need"
    by (auto simp: struct_unpack_from_def split: sum.splits)
  from assms(2) w p c obtain k where r: "resolve_offset (length buff) offset need = Some k"
    and u: "unpack_codes pf tb 0 codes (take need (drop k buff)) = Inr vs"
    by (auto simp: struct_unpack_from_def split: option.splits)
  from resolve_offset_append [OF assms(1) r, of ext]
  have r': "resolve_offset (length (buff @ ext)) offset need = Some k"
    and t: "take need (drop k (buff @ ext)) = take need (drop k buff)" by simp_all
  show ?thesis
    unfolding struct_unpack_from_def w prod.case p c sum.case r' option.case t by (rule u)
qed

lemma unpack_int_append:
  assumes "0 \<le> offset" and "unpack_int pf fmt buff offset = Inr i"
  shows "unpack_int pf fmt (buff @ ext) offset = Inr i"
  using assms(2) struct_unpack_from_append [OF assms(1), of pf fmt buff _ ext]
  unfolding unpack_int_def
  by (auto split: sum.splits)

lemma length_prefix_append:
  assumes "0 \<le> offset" and "length_prefix pf ch buff offset = Inr r"
  shows "length_prefix pf ch (buff @ ext) offset = Inr r"
proof -
  let ?f = "if ch = CHR ''S'' then ''!h'' else ''!i''"
  from assms(2) obtain len where l: "unpack_int pf ?f buff offset = Inr len"
    by (auto simp: length_prefix_def Let_def split: sum.splits)
  have l': "unpack_int pf ?f (buff @ ext) offset = Inr len"
    using assms(1) l by (rule unpack_int_append)
  from assms(2) show ?thesis
    unfolding length_prefix_def Let_def l l' .
qed

lemma py_slice_append:
  assumes "0 \<le> offset" and "py_ord (py_slice buff offset (offset + 1)) = Inr i"
  shows "py_slice (buff @ ext) offset (offset + 1) = py_slice buff offset (offset + 1)"
proof -
  from assms(2) have "offset < int (length buff)" by (rule py_ord_slice_in_range)
  with assms(1) show ?thesis
    by (simp add: py_slice_def slice_index_def Let_def nat_add_distrib)
qed

lemma unpack_varint_loop_append:
  assumes "0 \<le> offset" and "unpack_varint_loop buff offset sz shift result = Inr r"
  shows "unpack_varint_loop (buff @ ext) offset sz shift result = Inr r"
  using assms
proof (induction buff offset sz shift result rule: unpack_varint_loop.induct)
  case (1 buff offset sz shift result)
  from "1.prems"(2) obtain i where
    i: "py_ord (py_slice buff offset (offset + 1)) = Inr i"
    by (subst (asm) unpack_varint_loop.simps) (auto split: sum.splits)
  note s = py_slice_append [OF "1.prems"(1) i, of ext]
  show ?case
  proof (cases "i AND 0x80 = 0")
    case True
    with "1.prems"(2) i show ?thesis
      by (subst unpack_varint_loop.simps, subst (asm) unpack_varint_loop.simps) (simp add: s)
  next
    case False
    with "1.prems"(2) i have
      "unpack_varint_loop buff (offset + 1) (sz + 1) (shift + 7)
         (result OR push_bit shift (i AND 0x7f)) = Inr r"
      by (subst (asm) unpack_varint_loop.simps) simp
    with "1.IH" [OF i False] "1.prems"(1) have
      "unpack_varint_loop (buff @ ext) (offset + 1) (sz + 1) (shift + 7)
         (result OR push_bit shift (i AND 0x7f)) = Inr r"
      by simp
    with False i show ?thesis
      by (subst unpack_varint_loop.simps) (simp add: s)
  qed
qed

lemma unpack_varint_from_append:
  "0 \<le> offset \<Longrightarrow> unpack_varint_from buff offset = Inr r \<Longrightarrow>
     unpack_varint_from (buff @ ext) offset = Inr r"
  unfolding unpack_varint_from_def by (rule unpack_varint_loop_append)

lemma unpack_append:
  shows "unpack pf fmt buff offset count = Inr res \<Longrightarrow> 0 \<le> offset \<Longrightarrow>
           unpack pf fmt (buff @ ext) offset count = Inr res"
    and "unpack_loop pf cs af items buff offset = Inr res \<Longrightarrow> 0 \<le> offset \<Longrightarrow>
           unpack_loop pf cs af items (buff @ ext) offset = Inr res"
    and "unpack_array pf fmt buff offset count = Inr res \<Longrightarrow> 0 \<le> offset \<Longrightarrow>
           unpack_array pf fmt (buff @ ext) offset count = Inr res"
    and "unpack_array_loop pf fmt buff offset n out = Inr ares \<Longrightarrow> 0 \<le> offset \<Longrightarrow>
           unpack_array_loop pf fmt (buff @ ext) offset n out = Inr ares"
proof (induction pf fmt buff offset count and pf cs af items buff offset
    and pf fmt buff offset count and pf fmt buff offset n out
    arbitrary: res and res and res and ares
    rule: unpack_unpack_loop_unpack_array_unpack_array_loop.induct)
  case (1 pf fmt buff offset count)
  then show ?case by simp
next
  case (2 pf array_fmt items buff offset)
  then show ?case by simp
next
  case (3 pf ch cs array_fmt items buff offset)
  show ?case
  proof (cases "ch = CHR '']'' \<and> count_list array_fmt CHR ''['' = count_list array_fmt CHR '']''")
    case True
    with "3.prems" obtain count arr o1 where
      c: "unpack_int pf ''!i'' buff offset = Inr count"
      and a: "unpack_array pf array_fmt buff (offset + 4) count = Inr (arr, o1)"
      and l: "unpack_loop pf cs None (items @ [PList arr]) buff o1 = Inr res"
      by (auto split: sum.splits prod.splits)
    have c': "unpack_int pf ''!i'' (buff @ ext) offset = Inr count"
      using "3.prems"(2) c by (rule unpack_int_append)
    have a': "unpack_array pf array_fmt (buff @ ext) (offset + 4) count = Inr (arr, o1)"
      using "3.IH"(1) [OF True c a] "3.prems"(2) by simp
    have "offset + 4 \<le> o1" using a by (rule cursor_monotone(3))
    with "3.prems"(2) have "0 \<le> o1" by simp
    with "3.IH"(2) [OF True c a refl l]
    have "unpack_loop pf cs None (items @ [PList arr]) (buff @ ext) o1 = Inr res" .
    with True c' a' show ?thesis by simp
  next
    case False
    with "3.prems" have "unpack_loop pf cs (Some (array_fmt @ [ch])) items buff offset = Inr res"
      by (auto split: if_splits)
    from "3.IH"(3) [OF False this "3.prems"(2)] False show ?thesis by auto
  qed
next
  case (4 pf ch cs items buff offset)
  show ?case
  proof (cases "ch = CHR ''[''")
    case True
    with "4.prems" "4.IH"(1) show ?thesis by simp
  next
    case nb: False
    show ?thesis
    proof (cases "ch = CHR ''V''")
      case True
      with nb "4.prems" obtain len v where
        u: "unpack_varint_from buff offset = Inr (len, v)"
        and l: "unpack_loop pf cs None (items @ [PInt v]) buff (offset + len) = Inr res"
        by (auto split: sum.splits prod.splits)
      have u': "unpack_varint_from (buff @ ext) offset = Inr (len, v)"
        using "4.prems"(2) u by (rule unpack_varint_from_append)
      from unpack_varint_from_size [OF u] "4.prems"(2) have "0 \<le> offset + len" by simp
      with "4.IH"(2) [OF nb True u refl l]
      have "unpack_loop pf cs None (items @ [PInt v]) (buff @ ext) (offset + len) = Inr res" .
      with nb True u' show ?thesis by simp
    next
      case nv: False
      let ?pre = "if ch \<in> set ''SY'' then length_prefix pf ch buff offset
                  else Inr (Some [ch], offset)"
      let ?pre' = "if ch \<in> set ''SY'' then length_prefix pf ch (buff @ ext) offset
                  else Inr (Some [ch], offset)"
      from nb nv "4.prems" obtain w o1 where
        pre: "?pre = Inr (w, o1)"
        by (auto split: sum.splits prod.splits)
      then have f1: "offset \<le> o1"
        by (auto split: if_splits dest: length_prefix_forward)
      with "4.prems"(2) have o1: "0 \<le> o1" by simp
      have pre': "?pre' = Inr (w, o1)"
        using pre length_prefix_append [OF "4.prems"(2), of pf ch buff "(w, o1)" ext]
        by (auto split: if_splits)
      show ?thesis
      proof (cases w)
        case None
        with nb nv "4.prems" pre have
          l: "unpack_loop pf cs None (items @ [PNone]) buff o1 = Inr res"
          by (auto split: sum.splits prod.splits)
        from "4.IH"(3) [OF nb nv pre refl None l o1]
        have "unpack_loop pf cs None (items @ [PNone]) (buff @ ext) o1 = Inr res" .
        with nb nv None show ?thesis
          by (simp only: unpack_loop.simps if_False
              pre' sum.case prod.case option.case)
      next
        case (Some ch')
        with nb nv "4.prems" pre obtain vs n where
          s: "struct_unpack_from pf (CHR ''!'' # ch') buff o1 = Inr vs"
          and c: "struct_calcsize pf ch' = Inr n"
          and l: "unpack_loop pf cs None (items @ vs) buff (o1 + int n) = Inr res"
          by (auto split: sum.splits prod.splits)
        have s': "struct_unpack_from pf (CHR ''!'' # ch') (buff @ ext) o1 = Inr vs"
          using o1 s by (rule struct_unpack_from_append)
        from o1 have "0 \<le> o1 + int n" by simp
        with "4.IH"(4) [OF nb nv pre refl Some s c l]
        have "unpack_loop pf cs None (items @ vs) (buff @ ext) (o1 + int n) = Inr res" .
        with nb nv Some show ?thesis
          by (simp only: unpack_loop.simps if_False
              pre' sum.case prod.case option.case s' c)
      qed
    qed
  qed
next
  case (5 pf fmt buff offset count)
  from "5.prems" obtain out o1 where
    a: "unpack_array_loop pf fmt buff offset (nat count) [] = Inr (out, o1)"
    by (auto split: sum.splits prod.splits)
  from "5.IH" [OF a "5.prems"(2)] "5.prems"(1) a show ?case by simp
next
  case (6 pf fmt buff offset out)
  then show ?case by simp
next
  case (7 pf fmt buff offset n out)
  from "7.prems" obtain item o1 where
    u: "unpack pf fmt buff offset 1 = Inr (item, o1)"
    and l: "unpack_array_loop pf fmt buff o1 n (out @ [item]) = Inr ares"
    by (auto split: sum.splits prod.splits)
  have u': "unpack pf fmt (buff @ ext) offset 1 = Inr (item, o1)"
    using "7.IH"(1) [OF u "7.prems"(2)] .
  have "offset \<le> o1" using u by (rule cursor_monotone(1))
  with "7.prems"(2) have "0 \<le> o1" by simp
  with "7.IH"(2) [OF u refl l] have
    "unpack_array_loop pf fmt (buff @ ext) o1 n (out @ [item]) = Inr ares" .
  with u' show ?case by simp
qed

lemma unpack_from_append:
  assumes "0 \<le> offset" and "unpack_from pf fmt buff offset = Inr v"
  shows "unpack_from pf fmt (buff @ ext) offset = Inr v"
proof -
  let ?fmt1 = "filter (\<lambda>c. c \<noteq> CHR '' '') fmt"
  from assms(2) obtain c rest where f1: "?fmt1 = c # rest"
    by (cases ?fmt1) (auto simp: unpack_from_def)
  let ?fmt = "if c \<in> set ''!><'' then rest else c # rest"
  from assms(2) f1 obtain out o1 where u: "unpack pf ?fmt buff offset 1 = Inr (out, o1)"
    by (auto simp: unpack_from_def Let_def split: sum.splits prod.splits if_splits)
  have u': "unpack pf ?fmt (buff @ ext) offset 1 = Inr (out, o1)"
    using u assms(1) by (rule unpack_append(1))
  from assms(2) show ?thesis
    unfolding unpack_from_def Let_def f1 list.case u u' by simp
qed

lemma struct_unpack_from_short:
  assumes "0 \<le> offset" and "struct_calcsize pf f = Inr need"
    and "int (length buff) < offset + int need"
  shows "struct_unpack_from pf f buff offset = Inl StructError"
proof -
  from assms(1,3) have "resolve_offset (length buff) offset need = None"
    by (simp add: resolve_offset_def Let_def)
  with assms(2) show ?thesis
    by (auto simp: struct_unpack_from_def struct_calcsize_def split: prod.splits sum.splits)
qed

lemma unpack_varint_from_short:
  assumes "int (length buff) \<le> offset"
  shows "unpack_varint_from buff offset = Inl TypeError"
proof -
  from assms have "py_slice buff offset (offset + 1) = []"
    by (auto simp: py_slice_def slice_index_def Let_def)
  then show ?thesis
    unfolding unpack_varint_from_def
    by (subst unpack_varint_loop.simps) (simp add: py_ord_def)
qed

text \<open>
  Claim C7. At a non-negative offset, decoding a truncated buffer never returns anything
  but the result of the whole buffer: if \<^verbatim>\<open>unpack_from\<close> returns on the first \<open>n\<close> bytes,
  it returns the same value on the buffer, and if it raises on the buffer it raises on its
  first \<open>n\<close> bytes. The reads themselves raise on a short buffer:
  \<^verbatim>\<open>struct.unpack_from\<close> when fewer than \<^verbatim>\<open>calcsize\<close> bytes are left, the varint decoder
  when none is left. Nothing in the module catches an exception, so it reaches the caller.
\<close>

theorem unpack_from_short_buffer:
  assumes "0 \<le> offset"
  shows "(unpack_from pf fmt (take n buff) offset = Inr v \<longrightarrow>
            unpack_from pf fmt buff offset = Inr v) \<and>
         (unpack_from pf fmt buff offset = Inl e \<longrightarrow>
            (\<exists>e'. unpack_from pf fmt (take n buff) offset = Inl e')) \<and>
         (struct_calcsize pf f = Inr need \<and> int (length buff) < offset + int need \<longrightarrow>
            struct_unpack_from pf f buff offset = Inl StructError) \<and>
         (int (length buff) \<le> offset \<longrightarrow> unpack_varint_from buff offset = Inl TypeError)"
proof -
  have a: "unpack_from pf fmt buff offset = Inr w"
    if "unpack_from pf fmt (take n buff) offset = Inr w" for w
    using unpack_from_append [OF assms that, of "drop n buff"] by simp
  have b: "\<exists>e'. unpack_from pf fmt (take n buff) offset = Inl e'"
    if "unpack_from pf fmt buff offset = Inl e"
  proof (cases "unpack_from pf fmt (take n buff) offset")
    case (Inl e')
    then show ?thesis by blast
  next
    case (Inr w)
    from a [OF this] that show ?thesis by simp
  qed
  from a b struct_unpack_from_short [OF assms] unpack_varint_from_short
  show ?thesis by blast
qed

theorem unpack_from_short_buffer_witness:
  "unpack_from linux_x86_64 ''iV'' (take 5 [0, 0, 0, 1, 7, 9]) 0 = Inr (PTuple [PInt 1, PInt 7]) \<and>
   unpack_from linux_x86_64 ''iV'' [0, 0, 0, 1, 7, 9] 0 = Inr (PTuple [PInt 1, PInt 7]) \<and>
   unpack_from linux_x86_64 ''iVi'' [0, 0, 0, 1, 7, 9] 0 = Inl StructError \<and>
   (\<exists>e'. unpack_from linux_x86_64 ''iVi'' (take 4 [0, 0, 0, 1, 7, 9]) 0 = Inl e') \<and>
   struct_unpack_from linux_x86_64 ''!i'' [0, 0, 0] 0 = Inl StructError \<and>
   unpack_varint_from [0x80, 0x80] 2 = Inl TypeError"
proof -
  let ?buff = "[0, 0, 0, 1, 7, 9] :: byte list"
  have a: "unpack_from linux_x86_64 ''iV'' (take 5 ?buff) 0 = Inr (PTuple [PInt 1, PInt 7])"
    by code_simp
  have b: "unpack_from linux_x86_64 ''iVi'' ?buff 0 = Inl StructError"
    by code_simp
  have c: "struct_calcsize linux_x86_64 ''!i'' = Inr 4"
    by code_simp
  from a b c
    unpack_from_short_buffer [of 0 linux_x86_64 "''iV''" 5 ?buff "PTuple [PInt 1, PInt 7]"
      StructError "''!i''" 4]
    unpack_from_short_buffer [of 0 linux_x86_64 "''iVi''" 4 ?buff "PTuple []"
      StructError "''!i''" 4]
    unpack_from_short_buffer [of 0 linux_x86_64 "''iVi''" 4 "[0, 0, 0]" "PTuple []"
      StructError "''!i''" 4]
    unpack_from_short_buffer [of 2 linux_x86_64 "''iVi''" 4 "[0x80, 0x80]" "PTuple []"
      StructError "''!i''" 4]
  show ?thesis by simp
qed

subsection \<open>Whole-message arrays\<close>

text \<open>
  \<open>array_span acc cs\<close> follows the walker while it collects an array format: it gives the
  inner format and what is left after the bracket that closes the array, or \<open>None\<close> when
  the array is never closed. \<open>whole_array\<close> is the specification's "the entire format string
  is a single top-level array": the format opens with a bracket, and the bracket that
  closes it is its last character.
\<close>

fun array_span :: "string \<Rightarrow> string \<Rightarrow> (string \<times> string) option" where
  "array_span acc [] = None"
| "array_span acc (ch # cs) =
     (if ch = CHR '']'' \<and> count_list acc CHR ''['' = count_list acc CHR '']''
      then Some (acc, cs) else array_span (acc @ [ch]) cs)"

definition whole_array :: "string \<Rightarrow> bool" where
  "whole_array fmt =
     (case fmt of
        [] \<Rightarrow> False
      | c # cs \<Rightarrow> c = CHR ''['' \<and> (case array_span [] cs of None \<Rightarrow> False | Some (inner, rest) \<Rightarrow> rest = []))"

lemma unpack_loop_span:
  "unpack_loop pf cs (Some acc) items buff offset =
     (case array_span acc cs of
        None \<Rightarrow> Inr (items, offset)
      | Some (inner, rest) \<Rightarrow>
          (case unpack_int pf ''!i'' buff offset of
             Inl e \<Rightarrow> Inl e
           | Inr count \<Rightarrow>
               (case unpack_array pf inner buff (offset + 4) count of
                  Inl e \<Rightarrow> Inl e
                | Inr (arr, o1) \<Rightarrow> unpack_loop pf rest None (items @ [PList arr]) buff o1)))"
  by (induction cs arbitrary: acc) simp_all

lemma whole_array_output:
  assumes "whole_array fmt" and "unpack pf fmt buff offset count = Inr (out, offset')"
  shows "\<exists>arr. out = [PList arr]"
proof -
  from assms(1) obtain cs inner where fmt: "fmt = CHR ''['' # cs"
    and sp: "array_span [] cs = Some (inner, [])"
    by (auto simp: whole_array_def split: list.splits option.splits)
  from assms(2) show ?thesis
    by (auto simp: fmt unpack_loop_span sp split: sum.splits prod.splits)
qed

lemma unpack_from_normal:
  assumes "CHR '' '' \<notin> set fmt" and "fmt = c # rest" and "c \<notin> set ''!><''"
    and "unpack pf fmt buff offset 1 = Inr (out, offset')"
  shows "unpack_from pf fmt buff offset =
           Inr (if c = CHR ''['' \<and> length out = 1 then out ! 0 else PTuple out)"
proof -
  from assms(1) have f: "filter (\<lambda>c. c \<noteq> CHR '' '') fmt = fmt"
    by (induction fmt) auto
  have u: "unpack pf (c # rest) buff offset 1 = Inr (out, offset')"
    using assms(4) unfolding assms(2) .
  show ?thesis
    unfolding unpack_from_def Let_def f
    unfolding assms(2) list.case
    using assms(3) u by simp
qed

lemma be_sint_vals:
  "be_sint [0, 0, 0, 3] = 3" "be_sint [0, 0, 0, 1] = 1" "be_sint [0, 0, 0, 2] = 2"
  by (simp_all add: be_sint_def be_uint_def)

lemma unpack_i_example:
  assumes "c_size pf CHR ''i'' = 4"
  shows "unpack_from pf ''[i]'' [0, 0, 0, 3, 0, 0, 0, 1, 0, 0, 0, 2, 0, 0, 0, 3] 0 =
           Inr (PList [PInt 1, PInt 2, PInt 3])"
proof -
  let ?buff = "[0, 0, 0, 3, 0, 0, 0, 1, 0, 0, 0, 2, 0, 0, 0, 3] :: byte list"
  have cs: "struct_calcsize pf ''i'' = Inr 4"
    using assms
    by (simp add: struct_calcsize_def whichtable_def getentry_def align_up_def
        is_digit_def is_space_def)
  have r: "struct_unpack_from pf ''!i'' ?buff 4 = Inr [PInt 1]"
    "struct_unpack_from pf ''!i'' ?buff 8 = Inr [PInt 2]"
    "struct_unpack_from pf ''!i'' ?buff 12 = Inr [PInt 3]"
    by (simp_all add: struct_unpack_from_def whichtable_def getentry_def std_size_def
        align_up_def unpack_code_def unpack_item_def in_order_def order_of_def
        is_digit_def is_space_def resolve_offset_def be_sint_vals)
  have c: "unpack_int pf ''!i'' ?buff 0 = Inr 3"
    by (simp add: unpack_int_def struct_unpack_from_def whichtable_def getentry_def std_size_def
        align_up_def unpack_code_def unpack_item_def in_order_def order_of_def as_int_def
        is_digit_def is_space_def resolve_offset_def be_sint_vals)
  have n3: "nat 3 = Suc (Suc (Suc 0))" by simp
  have l: "unpack_array_loop pf ''i'' ?buff 4 (Suc (Suc (Suc 0))) [] =
             Inr ([[PInt 1], [PInt 2], [PInt 3]], 16)"
    by (simp add: r cs)
  have a: "unpack_array pf ''i'' ?buff 4 3 = Inr ([PInt 1, PInt 2, PInt 3], 16)"
    by (simp only: unpack_array.simps n3 l) simp
  show ?thesis
    by (simp add: unpack_from_def c a del: unpack_array.simps)
qed

text \<open>
  Claim C5, as amended. For a format without spaces and without order marker,
  \<^verbatim>\<open>unpack_from\<close> removes one nesting level exactly when the format starts with a bracket
  and the walker's result has exactly one element. That is so whenever the format is a
  single top-level array, and the value returned is then the list of the array itself.
  With a C \<^verbatim>\<open>int\<close> of four bytes, format \<^verbatim>\<open>[i]\<close> over the count 3 and the big-endian
  values 1, 2, 3 decodes to the list \<^verbatim>\<open>[1, 2, 3]\<close>, not to a tuple holding it.
\<close>

theorem unpack_from_unwrap:
  assumes "CHR '' '' \<notin> set fmt" and "fmt = c # rest" and "c \<notin> set ''!><''"
  shows "(unpack pf fmt buff offset 1 = Inr (out, offset') \<longrightarrow>
            unpack_from pf fmt buff offset =
              Inr (if c = CHR ''['' \<and> length out = 1 then out ! 0 else PTuple out)) \<and>
         (whole_array fmt \<and> unpack pf fmt buff offset 1 = Inr (out, offset') \<longrightarrow>
            (\<exists>arr. out = [PList arr] \<and> unpack_from pf fmt buff offset = Inr (PList arr))) \<and>
         (c_size pf CHR ''i'' = 4 \<longrightarrow>
            unpack_from pf ''[i]'' [0, 0, 0, 3, 0, 0, 0, 1, 0, 0, 0, 2, 0, 0, 0, 3] 0 =
              Inr (PList [PInt 1, PInt 2, PInt 3]))"
proof (intro conjI impI)
  assume "unpack pf fmt buff offset 1 = Inr (out, offset')"
  with assms show "unpack_from pf fmt buff offset =
      Inr (if c = CHR ''['' \<and> length out = 1 then out ! 0 else PTuple out)"
    by (rule unpack_from_normal)
next
  assume h: "whole_array fmt \<and> unpack pf fmt buff offset 1 = Inr (out, offset')"
  then obtain arr where o: "out = [PList arr]"
    using whole_array_output by blast
  from h assms(2) have c: "c = CHR ''[''"
    by (auto simp: whole_array_def)
  from unpack_from_normal [OF assms] h have
    "unpack_from pf fmt buff offset = Inr (PList arr)"
    by (simp add: o c)
  with o show "\<exists>arr. out = [PList arr] \<and> unpack_from pf fmt buff offset = Inr (PList arr)"
    by blast
next
  assume "c_size pf CHR ''i'' = 4"
  then show "unpack_from pf ''[i]'' [0, 0, 0, 3, 0, 0, 0, 1, 0, 0, 0, 2, 0, 0, 0, 3] 0 =
      Inr (PList [PInt 1, PInt 2, PInt 3])"
    by (rule unpack_i_example)
qed

theorem unpack_from_unwrap_witness:
  "whole_array ''[i]'' \<and>
   unpack linux_x86_64 ''[i]'' [0, 0, 0, 3, 0, 0, 0, 1, 0, 0, 0, 2, 0, 0, 0, 3] 0 1 =
     Inr ([PList [PInt 1, PInt 2, PInt 3]], 16) \<and>
   unpack_from linux_x86_64 ''[i]'' [0, 0, 0, 3, 0, 0, 0, 1, 0, 0, 0, 2, 0, 0, 0, 3] 0 =
     Inr (PList [PInt 1, PInt 2, PInt 3])"
proof -
  let ?buff = "[0, 0, 0, 3, 0, 0, 0, 1, 0, 0, 0, 2, 0, 0, 0, 3] :: byte list"
  have w: "whole_array ''[i]''" by code_simp
  have u: "unpack linux_x86_64 ''[i]'' ?buff 0 1 = Inr ([PList [PInt 1, PInt 2, PInt 3]], 16)"
    by code_simp
  have s: "c_size linux_x86_64 CHR ''i'' = 4" by (simp add: linux_x86_64_def)
  from w u s
    unpack_from_unwrap [of "''[i]''" "CHR ''[''" "''i]''" linux_x86_64 ?buff 0
      "[PList [PInt 1, PInt 2, PInt 3]]" 16]
  show ?thesis by simp
qed

text \<open>
  The claim as stated fails twice. Format \<^verbatim>\<open>[i]x\<close> is an array followed by a pad byte,
  not a single array, yet its result has one element and is unwrapped. And the value
  decoded from \<^verbatim>\<open>[i]\<close> is a Python list, built by \<^verbatim>\<open>_unpack_array\<close>, which is not equal
  to the tuple \<^verbatim>\<open>(1, 2, 3)\<close>.
\<close>

theorem unpack_from_unwrap_counterexample:
  "\<not> whole_array ''[i]x'' \<and>
   unpack linux_x86_64 ''[i]x'' [0, 0, 0, 1, 0, 0, 0, 7, 0] 0 1 = Inr ([PList [PInt 7]], 9) \<and>
   unpack_from linux_x86_64 ''[i]x'' [0, 0, 0, 1, 0, 0, 0, 7, 0] 0 = Inr (PList [PInt 7]) \<and>
   unpack_from linux_x86_64 ''[i]'' [0, 0, 0, 3, 0, 0, 0, 1, 0, 0, 0, 2, 0, 0, 0, 3] 0 \<noteq>
     Inr (PTuple [PInt 1, PInt 2, PInt 3])"
  by code_simp

end
